theory Spec2Isabelle
  imports Main
begin

section \<open>Memory planning in the wrapper code generator\<close>

text \<open>
  A shallow embedding of \<^verbatim>\<open>torchinductor/codegen/wrapper.py\<close>: the reuse pool
  (\<^verbatim>\<open>MemoryPlanningState\<close>), the memory planning lines with their two passes
  (\<^verbatim>\<open>plan\<close>, \<^verbatim>\<open>codegen\<close>), the allocation, free and inplace-reuse
  requests of \<^verbatim>\<open>WrapperCodeGen\<close>, and the core of \<^verbatim>\<open>generate\<close>
  (tail trimming, pass 1, pass 2, the return statement).
\<close>

subsection \<open>Errors\<close>

text \<open>
  Every failing \<^verbatim>\<open>assert\<close> is \<open>AssertionError\<close>, \<^verbatim>\<open>list.pop()\<close> on an
  empty list is \<open>IndexError\<close>, and reading \<^verbatim>\<open>.node\<close> of a \<^verbatim>\<open>NullLine\<close>
  (which has no such attribute) is \<open>AttributeError\<close>.
\<close>

datatype error = AssertionError | IndexError | AttributeError

subsection \<open>Buffers\<close>

text \<open>
  Modelled from the spec: \<^verbatim>\<open>ir.Buffer\<close>, its layouts and \<^verbatim>\<open>ir.ReinterpretView\<close>
  live in the module \<^verbatim>\<open>ir\<close>, which is not part of the sources at hand. A buffer has a
  name, a device, an element type, a size and a stride sequence and a layout kind; an
  aliased layout carries its view, and a reinterpreting view carries the buffer it views
  (\<^verbatim>\<open>view.data\<close>) and the text of \<^verbatim>\<open>view.codegen_reference()\<close>. Sizes and
  strides are integers here (the symbolic expressions of the source at integer values).
\<close>

datatype device = Device (device_type: string) (device_index: "nat option")

datatype layout = SimpleLayout | MutationLayout | AliasedLayout view | MultiOutputLayout
and view = ReinterpretView buffer string | NonReinterpretView
and buffer =
  Buffer (get_name: string) (get_device: device) (get_dtype: string)
         (get_size: "int list") (get_stride: "int list") (get_layout: layout)

subsection \<open>The graph context\<close>

text \<open>
  Modelled from the spec: the ambient \<^verbatim>\<open>V.graph\<close> is not part of the sources at hand.
  The functions below read from it the removed-buffer set, the names of the graph inputs
  and of the constants, the output names, the references of the graph outputs
  (\<^verbatim>\<open>x.codegen_reference()\<close> for each output), and the two operations of
  \<^verbatim>\<open>V.graph.sizevars\<close> that the module calls, which are taken as parameters.
\<close>

record graph =
  removed_buffers :: "string set"
  graph_inputs :: "string set"
  constants :: "string set"
  get_output_names :: "string list"
  output_refs :: "string list"
  simplify :: "int \<Rightarrow> int"
  codegen_shape_tuple :: "int list \<Rightarrow> string"

definition sympy_product :: "int list \<Rightarrow> int" where
  "sympy_product xs = prod_list xs"

type_synonym reuse_key = "device \<times> string \<times> int"

definition buffer_reuse_key :: "graph \<Rightarrow> buffer \<Rightarrow> reuse_key" where
  "buffer_reuse_key g node =
     (get_device node, get_dtype node, simplify g (sympy_product (get_size node)))"

subsection \<open>Rendering helpers\<close>

definition make_buffer_reuse :: "graph \<Rightarrow> buffer \<Rightarrow> buffer \<Rightarrow> error + string" where
  "make_buffer_reuse g old new =
     (if get_dtype old \<noteq> get_dtype new then Inl AssertionError
      else if get_size old = get_size new \<and> get_stride old = get_stride new
      then Inr (get_name new @ '' = '' @ get_name old @ ''; del '' @ get_name old)
      else Inr (get_name new @ '' = as_strided('' @ get_name old @ '', ''
                @ codegen_shape_tuple g (get_size new) @ '', ''
                @ codegen_shape_tuple g (get_stride new) @ ''); del '' @ get_name old))"

definition make_buffer_allocation :: "graph \<Rightarrow> buffer \<Rightarrow> string" where
  "make_buffer_allocation g buffer =
     (let device = get_device buffer;
          dtype = get_dtype buffer;
          shape = get_size buffer;
          stride = get_stride buffer
      in get_name buffer @ '' = empty_strided(''
         @ codegen_shape_tuple g shape @ '', ''
         @ codegen_shape_tuple g stride @ '', ''
         @ ''device='' @ [CHR 0x27] @ device_type device @ [CHR 0x27]
         @ '', dtype='' @ dtype @ '')'')"

subsection \<open>The reuse pool\<close>

text \<open>
  A \<^verbatim>\<open>FreeIfNotReusedLine\<close> is the one object of the module that is mutated through
  an alias: the pool and \<^verbatim>\<open>self.lines\<close> hold the same object, and
  \<^verbatim>\<open>AllocateLine.plan\<close> sets \<^verbatim>\<open>is_reused\<close> on the object it popped. So such an
  object is its (immutable) node together with an object identity, and the field
  \<^verbatim>\<open>is_reused\<close> of every object lives in a store indexed by identity.
\<close>

type_synonym obj_id = nat

type_synonym reused_store = "obj_id \<Rightarrow> bool"

datatype free_obj = FreeObj (obj_node: buffer) (obj_ident: obj_id)

text \<open>
  \<^verbatim>\<open>reuse_pool\<close> is a \<^verbatim>\<open>defaultdict(list)\<close>: a total function whose default is
  the empty list. Python lists grow and shrink at the end.
\<close>

record MemoryPlanningState =
  reuse_pool :: "reuse_key \<Rightarrow> free_obj list"

definition init_state :: MemoryPlanningState where
  "init_state = \<lparr> reuse_pool = (\<lambda>_. []) \<rparr>"

definition contains :: "MemoryPlanningState \<Rightarrow> reuse_key \<Rightarrow> bool" where
  "contains state key = (reuse_pool state key \<noteq> [])"

definition pop ::
  "reused_store \<Rightarrow> MemoryPlanningState \<Rightarrow> reuse_key \<Rightarrow> error + (free_obj \<times> MemoryPlanningState)" where
  "pop h state key =
     (if reuse_pool state key = [] then Inl IndexError
      else let item = last (reuse_pool state key);
               state' = state\<lparr>reuse_pool := (reuse_pool state)(key := butlast (reuse_pool state key))\<rparr>
           in if h (obj_ident item) then Inl AssertionError
              else Inr (item, state'))"

definition push ::
  "reused_store \<Rightarrow> MemoryPlanningState \<Rightarrow> reuse_key \<Rightarrow> free_obj \<Rightarrow> error + MemoryPlanningState" where
  "push h state key item =
     (if h (obj_ident item) then Inl AssertionError
      else Inr (state\<lparr>reuse_pool := (reuse_pool state)(key := reuse_pool state key @ [item])\<rparr>))"

subsection \<open>Memory planning lines\<close>

datatype MemoryPlanningLine =
    AllocateLine buffer
  | FreeIfNotReusedLine buffer obj_id
  | ReuseLine buffer buffer
  | FreeLine buffer
  | NullLine

text \<open>Pass 1. The result is the line that replaces this one, the pool and the store.\<close>

definition FreeLine_plan ::
  "graph \<Rightarrow> buffer \<Rightarrow> MemoryPlanningState \<times> reused_store
     \<Rightarrow> error + (MemoryPlanningLine \<times> MemoryPlanningState \<times> reused_store)" where
  "FreeLine_plan g node sh =
     (if get_name node \<in> removed_buffers g then Inr (NullLine, sh)
      else Inr (FreeLine node, sh))"

fun plan ::
  "graph \<Rightarrow> MemoryPlanningLine \<Rightarrow> MemoryPlanningState \<times> reused_store
     \<Rightarrow> error + (MemoryPlanningLine \<times> MemoryPlanningState \<times> reused_store)" where
  "plan g (AllocateLine node) (state, h) =
     (if get_name node \<in> removed_buffers g then Inr (NullLine, state, h)
      else let key = buffer_reuse_key g node
           in if contains state key
              then (case pop h state key of
                      Inl e \<Rightarrow> Inl e
                    | Inr (free_line, state') \<Rightarrow>
                        Inr (ReuseLine (obj_node free_line) node, state',
                             h(obj_ident free_line := True)))
              else Inr (AllocateLine node, state, h))"
| "plan g (FreeIfNotReusedLine node i) (state, h) =
     (if h i then Inl AssertionError
      else if get_name node \<in> removed_buffers g then Inr (NullLine, state, h)
      else (case push h state (buffer_reuse_key g node) (FreeObj node i) of
              Inl e \<Rightarrow> Inl e
            | Inr state' \<Rightarrow> Inr (FreeIfNotReusedLine node i, state', h)))"
| "plan g (ReuseLine node reused_as) (state, h) =
     (if get_name reused_as \<in> removed_buffers g
      then FreeLine_plan g node (state, h)
      else if get_name node \<in> removed_buffers g then Inl AssertionError
      else Inr (ReuseLine node reused_as, state, h))"
| "plan g (FreeLine node) (state, h) = FreeLine_plan g node (state, h)"
| "plan g NullLine (state, h) = Inr (NullLine, state, h)"

text \<open>Pass 2. The result is the list of lines written to the output buffer.\<close>

fun codegen :: "graph \<Rightarrow> reused_store \<Rightarrow> MemoryPlanningLine \<Rightarrow> error + string list" where
  "codegen g h (AllocateLine node) =
     (if get_name node \<in> removed_buffers g then Inl AssertionError
      else Inr [make_buffer_allocation g node])"
| "codegen g h (FreeIfNotReusedLine node i) =
     (if get_name node \<in> removed_buffers g then Inl AssertionError
      else if \<not> h i then Inr [''del '' @ get_name node] else Inr [])"
| "codegen g h (ReuseLine node reused_as) =
     (if get_name node \<in> removed_buffers g then Inl AssertionError
      else if get_name reused_as \<in> removed_buffers g then Inl AssertionError
      else (case make_buffer_reuse g node reused_as of
              Inl e \<Rightarrow> Inl e
            | Inr s \<Rightarrow> Inr [s @ ''  # reuse'']))"
| "codegen g h (FreeLine node) =
     (if get_name node \<in> removed_buffers g then Inl AssertionError
      else Inr [''del '' @ get_name node])"
| "codegen g h NullLine = Inr []"

subsection \<open>The wrapper\<close>

text \<open>
  An element of \<^verbatim>\<open>self.lines\<close> is a string, a \<^verbatim>\<open>DeferredLine\<close> (a name and a
  line; the class lives in \<^verbatim>\<open>codegen/common.py\<close>) or a memory planning line.
\<close>

datatype line = Str string | DeferredLine string string | Plan MemoryPlanningLine

text \<open>
  The fields of \<^verbatim>\<open>WrapperCodeGen\<close> that memory planning uses, together with the
  store of the \<^verbatim>\<open>is_reused\<close> fields and the next unused object identity.
\<close>

record WrapperCodeGen =
  lines :: "line list"
  allocated :: "string set"
  freed :: "string set"
  is_reused :: reused_store
  next_obj :: obj_id

definition init_wrapper :: WrapperCodeGen where
  "init_wrapper = \<lparr> lines = [], allocated = {}, freed = {}, is_reused = (\<lambda>_. False), next_obj = 0 \<rparr>"

definition writeline :: "line \<Rightarrow> WrapperCodeGen \<Rightarrow> WrapperCodeGen" where
  "writeline l w = w\<lparr>lines := lines w @ [l]\<rparr>"

fun codegen_allocation :: "graph \<Rightarrow> buffer \<Rightarrow> WrapperCodeGen \<Rightarrow> error + WrapperCodeGen" where
  "codegen_allocation g (Buffer name dev dtype sz st lay) w =
     (if name \<in> removed_buffers g \<or> name \<in> allocated w then Inr w
      else let w1 = w\<lparr>allocated := insert name (allocated w)\<rparr>
           in (case lay of
                 MutationLayout \<Rightarrow> Inr w1
               | AliasedLayout v \<Rightarrow>
                   (case v of
                      NonReinterpretView \<Rightarrow> Inl AssertionError
                    | ReinterpretView data ref \<Rightarrow>
                        (case codegen_allocation g data w1 of
                           Inl e \<Rightarrow> Inl e
                         | Inr w2 \<Rightarrow>
                             Inr (writeline
                                    (DeferredLine name (name @ '' = '' @ ref @ ''  # alias'')) w2)))
               | _ \<Rightarrow> Inr (writeline (Plan (AllocateLine (Buffer name dev dtype sz st lay))) w1)))"

definition can_reuse :: "graph \<Rightarrow> WrapperCodeGen \<Rightarrow> buffer \<Rightarrow> bool" where
  "can_reuse g w buffer =
     (let name = get_name buffer
      in if name \<in> removed_buffers g \<or> name \<in> graph_inputs g
            \<or> name \<in> constants g \<or> name \<in> freed w
         then False else True)"

text \<open>
  \<^verbatim>\<open>FreeIfNotReusedLine(buffer)\<close> constructs a new object, whose field
  \<^verbatim>\<open>is_reused\<close> starts as \<^verbatim>\<open>False\<close>.
\<close>

definition codegen_free :: "graph \<Rightarrow> buffer \<Rightarrow> WrapperCodeGen \<Rightarrow> WrapperCodeGen" where
  "codegen_free g buffer w =
     (let name = get_name buffer
      in if \<not> can_reuse g w buffer then w
         else let w1 = w\<lparr>freed := insert name (freed w)\<rparr>
              in (case get_layout buffer of
                    AliasedLayout v \<Rightarrow> writeline (Str (''del '' @ name)) w1
                  | MultiOutputLayout \<Rightarrow> writeline (Str (''del '' @ name)) w1
                  | _ \<Rightarrow>
                      writeline (Plan (FreeIfNotReusedLine buffer (next_obj w1)))
                        (w1\<lparr>is_reused := (is_reused w1)(next_obj w1 := False),
                            next_obj := Suc (next_obj w1)\<rparr>)))"

definition codegen_inplace_reuse ::
  "graph \<Rightarrow> buffer \<Rightarrow> buffer \<Rightarrow> WrapperCodeGen \<Rightarrow> error + WrapperCodeGen" where
  "codegen_inplace_reuse g input_buffer output_buffer w =
     (if buffer_reuse_key g input_buffer \<noteq> buffer_reuse_key g output_buffer
      then Inl AssertionError
      else (case codegen_allocation g input_buffer w of
              Inl e \<Rightarrow> Inl e
            | Inr w1 \<Rightarrow>
                Inr (writeline (Plan (ReuseLine input_buffer output_buffer))
                       (w1\<lparr>freed := insert (get_name input_buffer) (freed w1),
                           allocated := insert (get_name output_buffer) (allocated w1)\<rparr>))))"

subsection \<open>Generation\<close>

text \<open>The attribute \<^verbatim>\<open>node\<close> of a planning line; \<^verbatim>\<open>NullLine\<close> has none.\<close>

fun node :: "MemoryPlanningLine \<Rightarrow> buffer option" where
  "node (AllocateLine n) = Some n"
| "node (FreeIfNotReusedLine n i) = Some n"
| "node (ReuseLine n r) = Some n"
| "node (FreeLine n) = Some n"
| "node NullLine = None"

text \<open>The loop that pops the pointless lines off the end of \<^verbatim>\<open>self.lines\<close>.\<close>

function trim_tail :: "graph \<Rightarrow> line list \<Rightarrow> error + line list" where
  "trim_tail g ls =
     (if ls = [] then Inr ls
      else (case last ls of
              Plan p \<Rightarrow>
                (case node p of
                   None \<Rightarrow> Inl AttributeError
                 | Some n \<Rightarrow>
                     if get_name n \<notin> set (get_output_names g)
                     then trim_tail g (butlast ls)
                     else Inr ls)
            | _ \<Rightarrow> Inr ls))"
  by pat_completeness auto
termination
  by (relation "measure (\<lambda>(g, ls). length ls)") auto

declare trim_tail.simps [simp del]

text \<open>Pass 1 over \<^verbatim>\<open>self.lines\<close>, left to right, with one shared pool.\<close>

fun plan_lines ::
  "graph \<Rightarrow> line list \<Rightarrow> MemoryPlanningState \<times> reused_store
     \<Rightarrow> error + (line list \<times> MemoryPlanningState \<times> reused_store)" where
  "plan_lines g [] (state, h) = Inr ([], state, h)"
| "plan_lines g (l # ls) (state, h) =
     (case l of
        Plan p \<Rightarrow>
          (case plan g p (state, h) of
             Inl e \<Rightarrow> Inl e
           | Inr (p', state', h') \<Rightarrow>
               (case plan_lines g ls (state', h') of
                  Inl e \<Rightarrow> Inl e
                | Inr (ls', state'', h'') \<Rightarrow> Inr (Plan p' # ls', state'', h'')))
      | _ \<Rightarrow>
          (case plan_lines g ls (state, h) of
             Inl e \<Rightarrow> Inl e
           | Inr (ls', state'', h'') \<Rightarrow> Inr (l # ls', state'', h'')))"

text \<open>
  Pass 2. A planning line writes what its \<^verbatim>\<open>codegen\<close> writes; every other line is
  written to the output buffer as it is.
\<close>

fun codegen_lines :: "graph \<Rightarrow> reused_store \<Rightarrow> line list \<Rightarrow> error + line list" where
  "codegen_lines g h [] = Inr []"
| "codegen_lines g h (l # ls) =
     (case (case l of
              Plan p \<Rightarrow> (case codegen g h p of Inl e \<Rightarrow> Inl e | Inr ss \<Rightarrow> Inr (map Str ss))
            | _ \<Rightarrow> Inr [l]) of
        Inl e \<Rightarrow> Inl e
      | Inr out \<Rightarrow>
          (case codegen_lines g h ls of
             Inl e \<Rightarrow> Inl e
           | Inr outs \<Rightarrow> Inr (out @ outs)))"

fun join :: "string \<Rightarrow> string list \<Rightarrow> string" where
  "join sep [] = []"
| "join sep [x] = x"
| "join sep (x # y # ys) = x @ sep @ join sep (y # ys)"

definition return_line :: "graph \<Rightarrow> line" where
  "return_line g =
     (if output_refs g \<noteq> []
      then Str (''return ('' @ join '', '' (output_refs g) @ '', )'')
      else Str ''return ()'')"

text \<open>
  The body of \<^verbatim>\<open>generate\<close> inside \<^verbatim>\<open>result.indent()\<close>: the lines written to
  \<^verbatim>\<open>result\<close> after the header and the prefix, and the wrapper as the call leaves it.
\<close>

definition generate :: "graph \<Rightarrow> WrapperCodeGen \<Rightarrow> error + (line list \<times> WrapperCodeGen)" where
  "generate g w =
     (case trim_tail g (lines w) of
        Inl e \<Rightarrow> Inl e
      | Inr trimmed \<Rightarrow>
          (case plan_lines g trimmed (init_state, is_reused w) of
             Inl e \<Rightarrow> Inl e
           | Inr (planned, planning_state, h) \<Rightarrow>
               (case codegen_lines g h planned of
                  Inl e \<Rightarrow> Inl e
                | Inr out \<Rightarrow>
                    Inr (out @ [return_line g], w\<lparr>lines := planned, is_reused := h\<rparr>))))"

subsection \<open>Callers of the wrapper\<close>

text \<open>
  The scheduler drives the wrapper by a sequence of requests: allocation, free and
  inplace-reuse requests, and plain text lines (kernel calls) written with
  \<^verbatim>\<open>writeline\<close>.
\<close>

datatype request = Allocation buffer | Free buffer | InplaceReuse buffer buffer | Text string

fun issue :: "graph \<Rightarrow> request \<Rightarrow> WrapperCodeGen \<Rightarrow> error + WrapperCodeGen" where
  "issue g (Allocation b) w = codegen_allocation g b w"
| "issue g (Free b) w = Inr (codegen_free g b w)"
| "issue g (InplaceReuse inp out) w = codegen_inplace_reuse g inp out w"
| "issue g (Text s) w = Inr (writeline (Str s) w)"

fun requests :: "graph \<Rightarrow> request list \<Rightarrow> WrapperCodeGen \<Rightarrow> error + WrapperCodeGen" where
  "requests g [] w = Inr w"
| "requests g (r # rs) w =
     (case issue g r w of Inl e \<Rightarrow> Inl e | Inr w' \<Rightarrow> requests g rs w')"

subsection \<open>Observations on line sequences\<close>

text \<open>The buffers a planning line holds in its fields.\<close>

fun line_buffers :: "MemoryPlanningLine \<Rightarrow> buffer list" where
  "line_buffers (AllocateLine n) = [n]"
| "line_buffers (FreeIfNotReusedLine n i) = [n]"
| "line_buffers (ReuseLine n r) = [n, r]"
| "line_buffers (FreeLine n) = [n]"
| "line_buffers NullLine = []"


text \<open>
  A line takes part in the pool traffic of a key when pass 1 pushes or pops under that
  key for it: a free-if-not-reused or an allocation line of a live buffer with that key.
\<close>

fun uses_key :: "graph \<Rightarrow> reuse_key \<Rightarrow> line \<Rightarrow> bool" where
  "uses_key g k (Plan (AllocateLine n)) =
     (get_name n \<notin> removed_buffers g \<and> buffer_reuse_key g n = k)"
| "uses_key g k (Plan (FreeIfNotReusedLine n i)) =
     (get_name n \<notin> removed_buffers g \<and> buffer_reuse_key g n = k)"
| "uses_key g k l = False"




subsection \<open>Names in rendered text\<close>

text \<open>
  A rendered statement is Python text, and a buffer name occurs in it as an identifier.
  A statement mentions a name when the name is one of its identifier tokens: the maximal
  runs of letters, digits and underscores.
\<close>

definition ident_char :: "char \<Rightarrow> bool" where
  "ident_char c =
     (c \<in> set ''abcdefghijklmnopqrstuvwxyzABCDEFGHIJKLMNOPQRSTUVWXYZ0123456789_'')"

fun tokens_from :: "string \<Rightarrow> string \<Rightarrow> string list" where
  "tokens_from cur [] = (if cur = [] then [] else [cur])"
| "tokens_from cur (c # cs) =
     (if ident_char c then tokens_from (cur @ [c]) cs
      else (if cur = [] then [] else [cur]) @ tokens_from [] cs)"

definition tokens :: "string \<Rightarrow> string list" where
  "tokens s = tokens_from [] s"

definition mentions :: "string \<Rightarrow> string \<Rightarrow> bool" where
  "mentions n s = (n \<in> set (tokens s))"

definition is_identifier :: "string \<Rightarrow> bool" where
  "is_identifier n = (n \<noteq> [] \<and> list_all ident_char n)"

text \<open>The words of the statement forms that \<^verbatim>\<open>codegen\<close> writes.\<close>

definition statement_words :: "string list" where
  "statement_words = [''del'', ''empty_strided'', ''as_strided'', ''device'', ''dtype'', ''reuse'']"

text \<open>
  A name is foreign to the attributes of a buffer when it is no token of the texts
  rendered for its size, its stride, its device and its element type.
\<close>

definition attribute_free :: "graph \<Rightarrow> string \<Rightarrow> buffer \<Rightarrow> bool" where
  "attribute_free g n b =
     (\<not> mentions n (codegen_shape_tuple g (get_size b))
      \<and> \<not> mentions n (codegen_shape_tuple g (get_stride b))
      \<and> \<not> mentions n (device_type (get_device b))
      \<and> \<not> mentions n (get_dtype b))"

subsection \<open>Example data\<close>

definition shape_text :: "int list \<Rightarrow> string" where
  "shape_text xs =
     ''('' @ concat (map (\<lambda>x. (if x = 1 then ''1'' else if x = 4 then ''4''
                               else if x = 16 then ''16'' else ''s'') @ '', '') xs) @ '')''"

definition ex_graph :: "string set \<Rightarrow> graph" where
  "ex_graph removed =
     \<lparr> removed_buffers = removed, graph_inputs = {''arg0''}, constants = {''const0''},
       get_output_names = [''buf3''], output_refs = [''buf3''],
       simplify = (\<lambda>x. x), codegen_shape_tuple = shape_text \<rparr>"

definition cpu :: device where
  "cpu = Device ''cpu'' None"

definition ex_buf :: "string \<Rightarrow> buffer" where
  "ex_buf n = Buffer n cpu ''torch.float32'' [4, 4] [4, 1] SimpleLayout"

definition ex_flat :: "string \<Rightarrow> buffer" where
  "ex_flat n = Buffer n cpu ''torch.float32'' [16] [1] SimpleLayout"

definition ex_int :: "string \<Rightarrow> buffer" where
  "ex_int n = Buffer n cpu ''torch.int64'' [4, 4] [4, 1] SimpleLayout"

definition ex_view :: "string \<Rightarrow> buffer \<Rightarrow> buffer" where
  "ex_view n data =
     Buffer n cpu ''torch.float32'' [16] [1]
       (AliasedLayout (ReinterpretView data (''as_strided('' @ get_name data @ '', (16, ), (1, ))'')))"

lemmas ex_defs = ex_graph_def cpu_def ex_buf_def ex_flat_def ex_int_def ex_view_def shape_text_def

section \<open>Properties\<close>

subsection \<open>Aborts\<close>

lemma codegen_lines_abort:
  "Plan p \<in> set ls \<Longrightarrow> codegen g h p = Inl e \<Longrightarrow> \<exists>e'. codegen_lines g h ls = Inl e'"
  by (induction ls) (auto split: sum.splits line.splits)

text \<open>
  C9. Popping a pool entry already marked reused and pushing an entry already marked
  reused fail their assertion, and so does pass 1 when it does either; rendering a reuse
  pair whose buffers differ in element type fails its assertion, so that pass 2 over a
  sequence holding such a line produces an error and no output; an inplace-reuse request
  whose buffers have different reuse keys fails its assertion.
\<close>

theorem fatal_contract_violations:
  "(contains state key \<and> h (obj_ident (last (reuse_pool state key)))
      \<longrightarrow> pop h state key = Inl AssertionError
        \<and> (get_name n \<notin> removed_buffers g \<and> buffer_reuse_key g n = key
             \<longrightarrow> plan_lines g (Plan (AllocateLine n) # ls) (state, h) = Inl AssertionError))
   \<and> (h (obj_ident item) \<longrightarrow> push h state key item = Inl AssertionError)
   \<and> (h i \<longrightarrow> plan_lines g (Plan (FreeIfNotReusedLine n i) # ls) (state, h) = Inl AssertionError)
   \<and> (get_dtype old \<noteq> get_dtype new
      \<longrightarrow> make_buffer_reuse g old new = Inl AssertionError
        \<and> codegen g h (ReuseLine old new) = Inl AssertionError
        \<and> (Plan (ReuseLine old new) \<in> set ls' \<longrightarrow> (\<exists>e. codegen_lines g h ls' = Inl e)))
   \<and> (buffer_reuse_key g inp \<noteq> buffer_reuse_key g out
      \<longrightarrow> codegen_inplace_reuse g inp out w = Inl AssertionError)"
proof -
  have a: "codegen g h (ReuseLine old new) = Inl AssertionError" if "get_dtype old \<noteq> get_dtype new"
    using that by (simp add: make_buffer_reuse_def)
  show ?thesis
    using a codegen_lines_abort [of "ReuseLine old new" ls' g h AssertionError]
    by (simp add: pop_def push_def contains_def make_buffer_reuse_def codegen_inplace_reuse_def Let_def)
qed

theorem fatal_contract_violations_witness:
  "pop (\<lambda>i. i = 7) \<lparr>reuse_pool = (\<lambda>_. [FreeObj (ex_buf ''buf0'') 7])\<rparr>
       (buffer_reuse_key (ex_graph {}) (ex_buf ''buf1'')) = Inl AssertionError
   \<and> plan_lines (ex_graph {}) [Plan (AllocateLine (ex_buf ''buf1''))]
        (\<lparr>reuse_pool = (\<lambda>_. [FreeObj (ex_buf ''buf0'') 7])\<rparr>, (\<lambda>i. i = 7)) = Inl AssertionError
   \<and> push (\<lambda>i. i = 7) \<lparr>reuse_pool = (\<lambda>_. [FreeObj (ex_buf ''buf0'') 7])\<rparr>
        (buffer_reuse_key (ex_graph {}) (ex_buf ''buf1'')) (FreeObj (ex_buf ''buf0'') 7)
     = Inl AssertionError
   \<and> plan_lines (ex_graph {}) [Plan (FreeIfNotReusedLine (ex_buf ''buf1'') 7)]
        (\<lparr>reuse_pool = (\<lambda>_. [FreeObj (ex_buf ''buf0'') 7])\<rparr>, (\<lambda>i. i = 7)) = Inl AssertionError
   \<and> make_buffer_reuse (ex_graph {}) (ex_buf ''buf0'') (ex_int ''buf1'') = Inl AssertionError
   \<and> codegen (ex_graph {}) (\<lambda>i. i = 7) (ReuseLine (ex_buf ''buf0'') (ex_int ''buf1''))
     = Inl AssertionError
   \<and> (\<exists>e. codegen_lines (ex_graph {}) (\<lambda>i. i = 7)
             [Str ''kernel0.run()'', Plan (ReuseLine (ex_buf ''buf0'') (ex_int ''buf1''))] = Inl e)
   \<and> codegen_inplace_reuse (ex_graph {}) (ex_buf ''buf0'') (ex_int ''buf1'') init_wrapper
     = Inl AssertionError"
proof -
  let ?S = "\<lparr>reuse_pool = (\<lambda>_. [FreeObj (ex_buf ''buf0'') 7])\<rparr>"
  let ?k = "buffer_reuse_key (ex_graph {}) (ex_buf ''buf1'')"
  let ?h = "\<lambda>i::nat. i = 7"
  have h1: "contains ?S ?k \<and> ?h (obj_ident (last (reuse_pool ?S ?k)))"
    by (simp add: contains_def)
  have h2: "get_name (ex_buf ''buf1'') \<notin> removed_buffers (ex_graph {})
            \<and> buffer_reuse_key (ex_graph {}) (ex_buf ''buf1'') = ?k"
    by (simp add: ex_defs)
  have h3: "?h (obj_ident (FreeObj (ex_buf ''buf0'') 7))" by simp
  have h4: "?h 7" by simp
  have h5: "get_dtype (ex_buf ''buf0'') \<noteq> get_dtype (ex_int ''buf1'')"
    by (simp add: ex_defs)
  have h6: "Plan (ReuseLine (ex_buf ''buf0'') (ex_int ''buf1''))
              \<in> set [Str ''kernel0.run()'', Plan (ReuseLine (ex_buf ''buf0'') (ex_int ''buf1''))]"
    by simp
  have h7: "buffer_reuse_key (ex_graph {}) (ex_buf ''buf0'')
              \<noteq> buffer_reuse_key (ex_graph {}) (ex_int ''buf1'')"
    by (simp add: ex_defs buffer_reuse_key_def)
  show ?thesis
    using h1 h2 h3 h4 h5 h6 h7
      fatal_contract_violations [where state = ?S and key = ?k and h = ?h
        and n = "ex_buf ''buf1''" and g = "ex_graph {}" and ls = "[]"
        and item = "FreeObj (ex_buf ''buf0'') 7" and i = 7
        and old = "ex_buf ''buf0''" and new = "ex_int ''buf1''"
        and ls' = "[Str ''kernel0.run()'', Plan (ReuseLine (ex_buf ''buf0'') (ex_int ''buf1''))]"
        and inp = "ex_buf ''buf0''" and out = "ex_int ''buf1''" and w = init_wrapper]
    by blast
qed

subsection \<open>Planning a reuse line\<close>

text \<open>
  C3, as the claim states it, fails: when the new buffer of a reuse line is removed and
  the old one is removed as well, pass 1 does not turn the line into a free line of the
  old buffer but into a null line.
\<close>

theorem reuse_plan_counterexample:
  "get_name (ex_buf ''buf1'') \<in> removed_buffers (ex_graph {''buf0'', ''buf1''})
   \<and> plan (ex_graph {''buf0'', ''buf1''}) (ReuseLine (ex_buf ''buf0'') (ex_buf ''buf1''))
        (init_state, (\<lambda>_. False))
      \<noteq> Inr (FreeLine (ex_buf ''buf0''), init_state, (\<lambda>_. False))
   \<and> plan (ex_graph {''buf0'', ''buf1''}) (ReuseLine (ex_buf ''buf0'') (ex_buf ''buf1''))
        (init_state, (\<lambda>_. False))
      = Inr (NullLine, init_state, (\<lambda>_. False))"
  by (simp add: ex_defs FreeLine_plan_def)

text \<open>
  C3, amended. When the new buffer of a reuse line is removed, pass 1 replaces the line
  by what planning a free line of the old buffer gives: a free line of the old buffer,
  rendered as its release, when the old buffer is live, and a null line, rendered as
  nothing, when the old buffer is removed too. When the new buffer is live, the line is
  unchanged if the old buffer is live, and the assertion fails (pass 1 aborts) if the
  old buffer is removed.
\<close>

theorem reuse_plan:
  "(get_name new \<in> removed_buffers g \<and> get_name old \<notin> removed_buffers g
      \<longrightarrow> plan g (ReuseLine old new) (state, h) = Inr (FreeLine old, state, h)
        \<and> codegen g h (FreeLine old) = Inr [''del '' @ get_name old])
   \<and> (get_name new \<in> removed_buffers g \<and> get_name old \<in> removed_buffers g
      \<longrightarrow> plan g (ReuseLine old new) (state, h) = Inr (NullLine, state, h)
        \<and> codegen g h NullLine = Inr [])
   \<and> (get_name new \<notin> removed_buffers g \<and> get_name old \<notin> removed_buffers g
      \<longrightarrow> plan g (ReuseLine old new) (state, h) = Inr (ReuseLine old new, state, h))
   \<and> (get_name new \<notin> removed_buffers g \<and> get_name old \<in> removed_buffers g
      \<longrightarrow> plan g (ReuseLine old new) (state, h) = Inl AssertionError
        \<and> plan_lines g (Plan (ReuseLine old new) # ls) (state, h) = Inl AssertionError)"
  by (simp add: FreeLine_plan_def)

theorem reuse_plan_witness:
  "plan (ex_graph {''buf1''}) (ReuseLine (ex_buf ''buf0'') (ex_buf ''buf1'')) (init_state, (\<lambda>_. False))
     = Inr (FreeLine (ex_buf ''buf0''), init_state, (\<lambda>_. False))
   \<and> codegen (ex_graph {''buf1''}) (\<lambda>_. False) (FreeLine (ex_buf ''buf0'')) = Inr [''del buf0'']
   \<and> plan (ex_graph {''buf0'', ''buf1''}) (ReuseLine (ex_buf ''buf0'') (ex_buf ''buf1''))
        (init_state, (\<lambda>_. False)) = Inr (NullLine, init_state, (\<lambda>_. False))
   \<and> plan (ex_graph {}) (ReuseLine (ex_buf ''buf0'') (ex_buf ''buf1'')) (init_state, (\<lambda>_. False))
     = Inr (ReuseLine (ex_buf ''buf0'') (ex_buf ''buf1''), init_state, (\<lambda>_. False))
   \<and> plan_lines (ex_graph {''buf0''}) [Plan (ReuseLine (ex_buf ''buf0'') (ex_buf ''buf1''))]
        (init_state, (\<lambda>_. False)) = Inl AssertionError"
proof -
  have n: "get_name (ex_buf ''buf0'') = ''buf0''" "get_name (ex_buf ''buf1'') = ''buf1''"
    by (simp_all add: ex_defs)
  have r: "removed_buffers (ex_graph R) = R" for R
    by (simp add: ex_defs)
  show ?thesis
    using reuse_plan [of "ex_buf ''buf1''" "ex_graph {''buf1''}" "ex_buf ''buf0''" init_state "\<lambda>_. False" "[]"]
      reuse_plan [of "ex_buf ''buf1''" "ex_graph {''buf0'', ''buf1''}" "ex_buf ''buf0''" init_state "\<lambda>_. False" "[]"]
      reuse_plan [of "ex_buf ''buf1''" "ex_graph {}" "ex_buf ''buf0''" init_state "\<lambda>_. False" "[]"]
      reuse_plan [of "ex_buf ''buf1''" "ex_graph {''buf0''}" "ex_buf ''buf0''" init_state "\<lambda>_. False" "[]"]
    by (simp add: n r)
qed

subsection \<open>Rendering a reuse line\<close>

text \<open>
  C4. For a reuse line of two live buffers of the same element type, pass 2 writes
  exactly one statement: the rebind of the new name to the old one followed by the
  release of the old name when the size and the stride sequences of the two buffers are
  both equal, and otherwise the \<^verbatim>\<open>as_strided\<close> view of the old buffer with the
  size and stride of the new one, followed by the release of the old name. The rebind
  statement is never a reinterpretation statement of the two buffers.
\<close>

theorem reuse_rendering:
  assumes "get_name old \<notin> removed_buffers g" and "get_name new \<notin> removed_buffers g"
    and "get_dtype old = get_dtype new"
  shows "(get_size old = get_size new \<and> get_stride old = get_stride new
            \<longrightarrow> codegen g h (ReuseLine old new)
                = Inr [get_name new @ '' = '' @ get_name old @ ''; del '' @ get_name old @ ''  # reuse''])
         \<and> (\<not> (get_size old = get_size new \<and> get_stride old = get_stride new)
            \<longrightarrow> codegen g h (ReuseLine old new)
                = Inr [get_name new @ '' = as_strided('' @ get_name old @ '', ''
                       @ codegen_shape_tuple g (get_size new) @ '', ''
                       @ codegen_shape_tuple g (get_stride new) @ ''); del '' @ get_name old
                       @ ''  # reuse''])
         \<and> get_name new @ '' = '' @ get_name old @ ''; del '' @ get_name old @ ''  # reuse''
             \<noteq> get_name new @ '' = as_strided('' @ get_name old @ '', '' @ s @ '', '' @ t
                 @ ''); del '' @ get_name old @ ''  # reuse''"
proof -
  have "length (get_name new @ '' = '' @ get_name old @ ''; del '' @ get_name old @ ''  # reuse'')
      \<noteq> length (get_name new @ '' = as_strided('' @ get_name old @ '', '' @ s @ '', '' @ t
                 @ ''); del '' @ get_name old @ ''  # reuse'')"
    by simp
  then have "get_name new @ '' = '' @ get_name old @ ''; del '' @ get_name old @ ''  # reuse''
             \<noteq> get_name new @ '' = as_strided('' @ get_name old @ '', '' @ s @ '', '' @ t
                 @ ''); del '' @ get_name old @ ''  # reuse''"
    by metis
  then show ?thesis using assms by (simp add: make_buffer_reuse_def)
qed

theorem reuse_rendering_witness:
  "codegen (ex_graph {}) (\<lambda>_. False) (ReuseLine (ex_buf ''buf0'') (ex_buf ''buf1''))
     = Inr [''buf1 = buf0; del buf0  # reuse'']
   \<and> codegen (ex_graph {}) (\<lambda>_. False) (ReuseLine (ex_buf ''buf0'') (ex_flat ''buf1''))
     = Inr [''buf1 = as_strided(buf0, (16, ), (1, )); del buf0  # reuse'']"
proof -
  have a: "get_name (ex_buf ''buf0'') \<notin> removed_buffers (ex_graph {})"
    and b: "get_name (ex_buf ''buf1'') \<notin> removed_buffers (ex_graph {})"
    and b': "get_name (ex_flat ''buf1'') \<notin> removed_buffers (ex_graph {})"
    and c: "get_dtype (ex_buf ''buf0'') = get_dtype (ex_buf ''buf1'')"
    and c': "get_dtype (ex_buf ''buf0'') = get_dtype (ex_flat ''buf1'')"
    by (simp_all add: ex_defs)
  show ?thesis
    using reuse_rendering [OF a b c, of "\<lambda>_. False" "[]" "[]"]
      reuse_rendering [OF a b' c', of "\<lambda>_. False" "[]" "[]"]
    by (simp add: ex_defs)
qed

subsection \<open>Popping only from a non-empty stack\<close>

lemma plan_no_IndexError: "plan g p (state, h) \<noteq> Inl IndexError"
  by (cases p) (auto simp: pop_def push_def contains_def FreeLine_plan_def Let_def split: sum.splits)

lemma plan_lines_no_IndexError: "plan_lines g ls (state, h) \<noteq> Inl IndexError"
proof (induction ls arbitrary: state h)
  case Nil
  then show ?case by simp
next
  case (Cons l ls)
  show ?case
  proof (cases l)
    case (Plan p)
    then show ?thesis using Cons plan_no_IndexError [of g p state h]
      by (auto split: sum.splits)
  qed (use Cons in \<open>auto split: sum.splits\<close>)
qed

lemma trim_tail_no_IndexError: "trim_tail g ls \<noteq> Inl IndexError"
  by (induction g ls rule: trim_tail.induct)
    (subst trim_tail.simps, auto split: line.splits option.splits)

lemma codegen_no_IndexError: "codegen g h p \<noteq> Inl IndexError"
  by (cases p) (auto simp: make_buffer_reuse_def)

lemma codegen_lines_no_IndexError: "codegen_lines g h ls \<noteq> Inl IndexError"
  by (induction ls) (use codegen_no_IndexError in \<open>auto split: sum.splits line.splits\<close>)

text \<open>
  C10. A pop under a key that the pool contains never fails on an empty list (and a pop
  under a key it does not contain does). Pass 1 pops only after the containment check,
  so neither the plan of a line, nor pass 1 over a sequence, nor generation as a whole
  ever ends in the error of popping from an empty list.
\<close>

theorem pop_never_on_empty:
  "(contains state key \<longrightarrow> pop h state key \<noteq> Inl IndexError)
   \<and> (\<not> contains state key \<longrightarrow> pop h state key = Inl IndexError)
   \<and> plan g p (state, h) \<noteq> Inl IndexError
   \<and> plan_lines g ls (state, h) \<noteq> Inl IndexError
   \<and> generate g w \<noteq> Inl IndexError"
proof -
  have "generate g w \<noteq> Inl IndexError"
    using trim_tail_no_IndexError plan_lines_no_IndexError codegen_lines_no_IndexError
    by (auto simp: generate_def split: sum.splits)
  then show ?thesis
    using plan_no_IndexError plan_lines_no_IndexError
    by (simp add: pop_def contains_def Let_def)
qed

theorem pop_never_on_empty_witness:
  "contains \<lparr>reuse_pool = (\<lambda>_. [FreeObj (ex_buf ''buf0'') 0])\<rparr> (buffer_reuse_key (ex_graph {}) (ex_buf ''buf1''))
   \<and> pop (\<lambda>_. False) \<lparr>reuse_pool = (\<lambda>_. [FreeObj (ex_buf ''buf0'') 0])\<rparr>
         (buffer_reuse_key (ex_graph {}) (ex_buf ''buf1'')) \<noteq> Inl IndexError
   \<and> \<not> contains init_state (buffer_reuse_key (ex_graph {}) (ex_buf ''buf1''))
   \<and> pop (\<lambda>_. False) init_state (buffer_reuse_key (ex_graph {}) (ex_buf ''buf1'')) = Inl IndexError
   \<and> plan_lines (ex_graph {}) [Plan (AllocateLine (ex_buf ''buf1''))] (init_state, (\<lambda>_. False))
       \<noteq> Inl IndexError"
proof -
  let ?S = "\<lparr>reuse_pool = (\<lambda>_. [FreeObj (ex_buf ''buf0'') 0])\<rparr>"
  let ?k = "buffer_reuse_key (ex_graph {}) (ex_buf ''buf1'')"
  have a: "contains ?S ?k" by (simp add: contains_def)
  have b: "\<not> contains init_state ?k" by (simp add: contains_def init_state_def)
  show ?thesis
    using a b pop_never_on_empty [of ?S ?k "\<lambda>_. False" "ex_graph {}" NullLine "[]" init_wrapper]
      pop_never_on_empty [of init_state ?k "\<lambda>_. False" "ex_graph {}" NullLine
        "[Plan (AllocateLine (ex_buf ''buf1''))]" init_wrapper]
    by blast
qed

subsection \<open>Pass 1 and the pool\<close>

lemma plan_lines_append:
  "plan_lines g (as @ bs) sh =
     (case plan_lines g as sh of
        Inl e \<Rightarrow> Inl e
      | Inr (as', sh') \<Rightarrow>
          (case plan_lines g bs sh' of
             Inl e \<Rightarrow> Inl e
           | Inr (bs', sh'') \<Rightarrow> Inr (as' @ bs', sh'')))"
proof (induction as arbitrary: sh)
  case Nil
  show ?case by (cases sh) (auto split: sum.splits)
next
  case (Cons l as)
  obtain state h where sh: "sh = (state, h)" by (cases sh)
  show ?case
    by (cases l) (auto simp: sh Cons split: sum.splits)
qed

lemma plan_lines_appendD:
  assumes "plan_lines g (as @ bs) sh = Inr (ls', sh'')"
  obtains as' bs' sh' where "plan_lines g as sh = Inr (as', sh')"
    and "plan_lines g bs sh' = Inr (bs', sh'')" and "ls' = as' @ bs'"
  using assms by (auto simp: plan_lines_append split: sum.splits)

lemma plan_lines_length:
  "plan_lines g ls sh = Inr (ls', sh') \<Longrightarrow> length ls' = length ls"
proof (induction ls arbitrary: sh ls')
  case Nil
  then show ?case by (cases sh) auto
next
  case (Cons l ls)
  obtain state h where sh: "sh = (state, h)" by (cases sh)
  show ?case using Cons.prems Cons.IH
    by (cases l) (auto simp: sh split: sum.splits)
qed

lemma plan_frame:
  assumes "\<not> uses_key g k (Plan p)" and "plan g p (state, h) = Inr (p', state', h')"
  shows "reuse_pool state' k = reuse_pool state k"
  using assms
  by (cases p)
    (auto simp: pop_def push_def contains_def FreeLine_plan_def Let_def split: if_splits sum.splits)

lemma plan_lines_frame:
  assumes "\<forall>l \<in> set ls. \<not> uses_key g k l" and "plan_lines g ls (state, h) = Inr (ls', state', h')"
  shows "reuse_pool state' k = reuse_pool state k"
  using assms
proof (induction ls arbitrary: state h ls')
  case Nil
  then show ?case by simp
next
  case (Cons l ls)
  show ?case
  proof (cases l)
    case (Plan p)
    from Cons.prems(2) Plan obtain p' s1 h1 ls1 where
      1: "plan g p (state, h) = Inr (p', s1, h1)" and 2: "plan_lines g ls (s1, h1) = Inr (ls1, state', h')"
      by (auto split: sum.splits)
    have "reuse_pool s1 k = reuse_pool state k"
      using plan_frame [OF _ 1] Cons.prems(1) Plan by simp
    moreover have "reuse_pool state' k = reuse_pool s1 k"
      using Cons.IH [OF _ 2] Cons.prems(1) by simp
    ultimately show ?thesis by simp
  next
    case (Str s)
    with Cons show ?thesis by (auto split: sum.splits)
  next
    case (DeferredLine n s)
    with Cons show ?thesis by (auto split: sum.splits)
  qed
qed

lemma plan_lines_free:
  assumes "plan_lines g [Plan (FreeIfNotReusedLine n i)] (state, h) = Inr (ls', state', h')"
    and "get_name n \<notin> removed_buffers g"
  shows "ls' = [Plan (FreeIfNotReusedLine n i)]
         \<and> reuse_pool state' (buffer_reuse_key g n) = reuse_pool state (buffer_reuse_key g n) @ [FreeObj n i]"
  using assms by (auto simp: push_def split: if_splits)

lemma plan_lines_alloc:
  assumes "plan_lines g [Plan (AllocateLine n)] (state, h) = Inr (ls', state', h')"
    and "get_name n \<notin> removed_buffers g"
    and "reuse_pool state (buffer_reuse_key g n) = es @ [e]"
  shows "ls' = [Plan (ReuseLine (obj_node e) n)]
         \<and> reuse_pool state' (buffer_reuse_key g n) = es \<and> h' (obj_ident e)"
  using assms by (auto simp: pop_def contains_def Let_def split: if_splits sum.splits)

lemma plan_mono:
  "plan g p (state, h) = Inr (p', state', h') \<Longrightarrow> h i \<Longrightarrow> h' i"
  by (cases p)
    (auto simp: pop_def push_def contains_def FreeLine_plan_def Let_def split: if_splits sum.splits)

lemma plan_lines_mono:
  "plan_lines g ls (state, h) = Inr (ls', state', h') \<Longrightarrow> h i \<Longrightarrow> h' i"
proof (induction ls arbitrary: state h ls')
  case Nil
  then show ?case by simp
next
  case (Cons l ls)
  show ?case
  proof (cases l)
    case (Plan p)
    from Cons.prems(1) Plan obtain p' s1 h1 ls1 where
      1: "plan g p (state, h) = Inr (p', s1, h1)" and 2: "plan_lines g ls (s1, h1) = Inr (ls1, state', h')"
      by (auto split: sum.splits)
    show ?thesis using Cons.IH [OF 2] plan_mono [OF 1] Cons.prems(2) by simp
  next
    case (Str s)
    with Cons show ?thesis by (auto split: sum.splits)
  next
    case (DeferredLine n s)
    with Cons show ?thesis by (auto split: sum.splits)
  qed
qed

lemma push_pop:
  "\<not> h (obj_ident e) \<Longrightarrow>
   \<exists>state1. push h state k e = Inr state1 \<and> contains state1 k \<and> pop h state1 k = Inr (e, state)"
  by (simp add: push_def pop_def contains_def Let_def)

text \<open>
  C1. Let pass 1 succeed on a sequence in which a free-if-not-reused line of a live
  buffer \<open>F1\<close> is followed by one of a live buffer \<open>F2\<close>, then by an allocation line
  of a live buffer \<open>f\<close> and then by one of a live buffer \<open>f'\<close>, all four with the
  same reuse key, and in which no other line between \<open>F1\<close> and \<open>f'\<close> pushes or
  pops under that key. Then every line keeps its position, the allocation of \<open>f\<close>
  has become the reuse of \<open>F2\<close> (not of \<open>F1\<close>), the allocation of \<open>f'\<close> has
  become the reuse of \<open>F1\<close>, and both free lines are marked reused. Under one key the
  pool is a stack: a pop after a push returns the pushed entry and the pool as it was.
\<close>

theorem lifo_reuse:
  assumes run: "plan_lines g
       (xs @ [Plan (FreeIfNotReusedLine F1 i1)] @ ys @ [Plan (FreeIfNotReusedLine F2 i2)] @ zs
          @ [Plan (AllocateLine f)] @ us @ [Plan (AllocateLine f')] @ vs) (state, h)
     = Inr (ls', state', h')"
    and live: "get_name F1 \<notin> removed_buffers g" "get_name F2 \<notin> removed_buffers g"
      "get_name f \<notin> removed_buffers g" "get_name f' \<notin> removed_buffers g"
    and keys: "buffer_reuse_key g F1 = k" "buffer_reuse_key g F2 = k"
      "buffer_reuse_key g f = k" "buffer_reuse_key g f' = k"
    and quiet: "\<forall>l \<in> set (ys @ zs @ us). \<not> uses_key g k l"
  shows "(\<exists>xs' ys' zs' us' vs'.
           ls' = xs' @ [Plan (FreeIfNotReusedLine F1 i1)] @ ys' @ [Plan (FreeIfNotReusedLine F2 i2)] @ zs'
                 @ [Plan (ReuseLine F2 f)] @ us' @ [Plan (ReuseLine F1 f')] @ vs'
           \<and> length xs' = length xs \<and> length ys' = length ys \<and> length zs' = length zs
           \<and> length us' = length us \<and> length vs' = length vs
           \<and> h' i1 \<and> h' i2)
         \<and> (\<not> h (obj_ident e) \<longrightarrow>
              (\<exists>state1. push h state k e = Inr state1 \<and> contains state1 k
                 \<and> pop h state1 k = Inr (e, state)))"
proof -
  have stack: "\<not> h (obj_ident e) \<longrightarrow>
           (\<exists>state1. push h state k e = Inr state1 \<and> contains state1 k
              \<and> pop h state1 k = Inr (e, state))"
    using push_pop by blast
  from run obtain xs' r1 sh1 where
    a1: "plan_lines g xs (state, h) = Inr (xs', sh1)"
    and b1: "plan_lines g ([Plan (FreeIfNotReusedLine F1 i1)] @ ys @ [Plan (FreeIfNotReusedLine F2 i2)] @ zs
          @ [Plan (AllocateLine f)] @ us @ [Plan (AllocateLine f')] @ vs) sh1 = Inr (r1, state', h')"
    and c1: "ls' = xs' @ r1"
    by (rule plan_lines_appendD)
  obtain s1 h1 where sh1: "sh1 = (s1, h1)" by (cases sh1)
  from b1 obtain l2 r2 sh2 where
    a2: "plan_lines g [Plan (FreeIfNotReusedLine F1 i1)] sh1 = Inr (l2, sh2)"
    and b2: "plan_lines g (ys @ [Plan (FreeIfNotReusedLine F2 i2)] @ zs
          @ [Plan (AllocateLine f)] @ us @ [Plan (AllocateLine f')] @ vs) sh2 = Inr (r2, state', h')"
    and c2: "r1 = l2 @ r2"
    by (rule plan_lines_appendD)
  obtain s2 h2 where sh2: "sh2 = (s2, h2)" by (cases sh2)
  from b2 obtain ys' r3 sh3 where
    a3: "plan_lines g ys sh2 = Inr (ys', sh3)"
    and b3: "plan_lines g ([Plan (FreeIfNotReusedLine F2 i2)] @ zs
          @ [Plan (AllocateLine f)] @ us @ [Plan (AllocateLine f')] @ vs) sh3 = Inr (r3, state', h')"
    and c3: "r2 = ys' @ r3"
    by (rule plan_lines_appendD)
  obtain s3 h3 where sh3: "sh3 = (s3, h3)" by (cases sh3)
  from b3 obtain l4 r4 sh4 where
    a4: "plan_lines g [Plan (FreeIfNotReusedLine F2 i2)] sh3 = Inr (l4, sh4)"
    and b4: "plan_lines g (zs @ [Plan (AllocateLine f)] @ us @ [Plan (AllocateLine f')] @ vs) sh4
             = Inr (r4, state', h')"
    and c4: "r3 = l4 @ r4"
    by (rule plan_lines_appendD)
  obtain s4 h4 where sh4: "sh4 = (s4, h4)" by (cases sh4)
  from b4 obtain zs' r5 sh5 where
    a5: "plan_lines g zs sh4 = Inr (zs', sh5)"
    and b5: "plan_lines g ([Plan (AllocateLine f)] @ us @ [Plan (AllocateLine f')] @ vs) sh5
             = Inr (r5, state', h')"
    and c5: "r4 = zs' @ r5"
    by (rule plan_lines_appendD)
  obtain s5 h5 where sh5: "sh5 = (s5, h5)" by (cases sh5)
  from b5 obtain l6 r6 sh6 where
    a6: "plan_lines g [Plan (AllocateLine f)] sh5 = Inr (l6, sh6)"
    and b6: "plan_lines g (us @ [Plan (AllocateLine f')] @ vs) sh6 = Inr (r6, state', h')"
    and c6: "r5 = l6 @ r6"
    by (rule plan_lines_appendD)
  obtain s6 h6 where sh6: "sh6 = (s6, h6)" by (cases sh6)
  from b6 obtain us' r7 sh7 where
    a7: "plan_lines g us sh6 = Inr (us', sh7)"
    and b7: "plan_lines g ([Plan (AllocateLine f')] @ vs) sh7 = Inr (r7, state', h')"
    and c7: "r6 = us' @ r7"
    by (rule plan_lines_appendD)
  obtain s7 h7 where sh7: "sh7 = (s7, h7)" by (cases sh7)
  from b7 obtain l8 vs' sh8 where
    a8: "plan_lines g [Plan (AllocateLine f')] sh7 = Inr (l8, sh8)"
    and b8: "plan_lines g vs sh8 = Inr (vs', state', h')"
    and c8: "r7 = l8 @ vs'"
    by (rule plan_lines_appendD)
  obtain s8 h8 where sh8: "sh8 = (s8, h8)" by (cases sh8)
  have q: "\<forall>l \<in> set ys. \<not> uses_key g k l" "\<forall>l \<in> set zs. \<not> uses_key g k l"
    "\<forall>l \<in> set us. \<not> uses_key g k l"
    using quiet by auto
  have p2: "l2 = [Plan (FreeIfNotReusedLine F1 i1)]" "reuse_pool s2 k = reuse_pool s1 k @ [FreeObj F1 i1]"
    using plan_lines_free [OF a2 [unfolded sh1 sh2] live(1)] keys(1) by auto
  have p3: "reuse_pool s3 k = reuse_pool s2 k"
    using plan_lines_frame [OF q(1) a3 [unfolded sh2 sh3]] .
  have p4: "l4 = [Plan (FreeIfNotReusedLine F2 i2)]" "reuse_pool s4 k = reuse_pool s3 k @ [FreeObj F2 i2]"
    using plan_lines_free [OF a4 [unfolded sh3 sh4] live(2)] keys(2) by auto
  have p5: "reuse_pool s5 k = reuse_pool s4 k"
    using plan_lines_frame [OF q(2) a5 [unfolded sh4 sh5]] .
  have "reuse_pool s5 (buffer_reuse_key g f) = (reuse_pool s1 k @ [FreeObj F1 i1]) @ [FreeObj F2 i2]"
    using p2 p3 p4 p5 keys(3) by simp
  from plan_lines_alloc [OF a6 [unfolded sh5 sh6] live(3) this]
  have p6: "l6 = [Plan (ReuseLine F2 f)]" "reuse_pool s6 k = reuse_pool s1 k @ [FreeObj F1 i1]" "h6 i2"
    using keys(3) by auto
  have p7: "reuse_pool s7 k = reuse_pool s6 k"
    using plan_lines_frame [OF q(3) a7 [unfolded sh6 sh7]] .
  have "reuse_pool s7 (buffer_reuse_key g f') = reuse_pool s1 k @ [FreeObj F1 i1]"
    using p6 p7 keys(4) by simp
  from plan_lines_alloc [OF a8 [unfolded sh7 sh8] live(4) this]
  have p8: "l8 = [Plan (ReuseLine F1 f')]" "h8 i1"
    by auto
  have m: "h' i1" "h' i2"
    using p8(2) plan_lines_mono [OF b8 [unfolded sh8]]
      p6(3) plan_lines_mono [OF a7 [unfolded sh6 sh7]] plan_lines_mono [OF a8 [unfolded sh7 sh8]]
      plan_lines_mono [OF b8 [unfolded sh8]]
    by blast+
  have len: "length xs' = length xs" "length ys' = length ys" "length zs' = length zs"
    "length us' = length us" "length vs' = length vs"
    using plan_lines_length [OF a1] plan_lines_length [OF a3] plan_lines_length [OF a5]
      plan_lines_length [OF a7] plan_lines_length [OF b8]
    by auto
  have "ls' = xs' @ [Plan (FreeIfNotReusedLine F1 i1)] @ ys' @ [Plan (FreeIfNotReusedLine F2 i2)] @ zs'
                 @ [Plan (ReuseLine F2 f)] @ us' @ [Plan (ReuseLine F1 f')] @ vs'"
    using c1 c2 c3 c4 c5 c6 c7 c8 p2(1) p4(1) p6(1) p8(1) by simp
  with len m have "\<exists>xs' ys' zs' us' vs'.
           ls' = xs' @ [Plan (FreeIfNotReusedLine F1 i1)] @ ys' @ [Plan (FreeIfNotReusedLine F2 i2)] @ zs'
                 @ [Plan (ReuseLine F2 f)] @ us' @ [Plan (ReuseLine F1 f')] @ vs'
           \<and> length xs' = length xs \<and> length ys' = length ys \<and> length zs' = length zs
           \<and> length us' = length us \<and> length vs' = length vs
           \<and> h' i1 \<and> h' i2"
    by blast
  with stack show ?thesis by blast
qed

theorem lifo_reuse_witness:
  "\<exists>ls' state' h'.
     plan_lines (ex_graph {})
       ([] @ [Plan (FreeIfNotReusedLine (ex_buf ''e1'') 0)] @ [Str ''kernel0.run(e2)'']
          @ [Plan (FreeIfNotReusedLine (ex_flat ''e2'') 1)] @ []
          @ [Plan (AllocateLine (ex_buf ''f''))] @ [Str ''kernel1.run(f)'']
          @ [Plan (AllocateLine (ex_flat ''g''))] @ [Str ''kernel2.run(f, g)''])
       (init_state, (\<lambda>_. False)) = Inr (ls', state', h')
     \<and> ls' = [Plan (FreeIfNotReusedLine (ex_buf ''e1'') 0), Str ''kernel0.run(e2)'',
               Plan (FreeIfNotReusedLine (ex_flat ''e2'') 1),
               Plan (ReuseLine (ex_flat ''e2'') (ex_buf ''f'')), Str ''kernel1.run(f)'',
               Plan (ReuseLine (ex_buf ''e1'') (ex_flat ''g'')), Str ''kernel2.run(f, g)'']
     \<and> (\<exists>xs' ys' zs' us' vs'.
           ls' = xs' @ [Plan (FreeIfNotReusedLine (ex_buf ''e1'') 0)] @ ys'
                 @ [Plan (FreeIfNotReusedLine (ex_flat ''e2'') 1)] @ zs'
                 @ [Plan (ReuseLine (ex_flat ''e2'') (ex_buf ''f''))] @ us'
                 @ [Plan (ReuseLine (ex_buf ''e1'') (ex_flat ''g''))] @ vs'
           \<and> length xs' = length ([] :: line list) \<and> length ys' = length [Str ''kernel0.run(e2)'']
           \<and> length zs' = length ([] :: line list) \<and> length us' = length [Str ''kernel1.run(f)'']
           \<and> length vs' = length [Str ''kernel2.run(f, g)'']
           \<and> h' 0 \<and> h' 1)"
proof -
  let ?g = "ex_graph {}"
  let ?k = "buffer_reuse_key ?g (ex_buf ''e1'')"
  have keys: "buffer_reuse_key ?g (ex_buf ''e1'') = ?k" "buffer_reuse_key ?g (ex_flat ''e2'') = ?k"
    "buffer_reuse_key ?g (ex_buf ''f'') = ?k" "buffer_reuse_key ?g (ex_flat ''g'') = ?k"
    by (simp_all add: ex_defs buffer_reuse_key_def sympy_product_def)
  have live: "get_name (ex_buf ''e1'') \<notin> removed_buffers ?g" "get_name (ex_flat ''e2'') \<notin> removed_buffers ?g"
    "get_name (ex_buf ''f'') \<notin> removed_buffers ?g" "get_name (ex_flat ''g'') \<notin> removed_buffers ?g"
    by (simp_all add: ex_defs)
  have quiet: "\<forall>l \<in> set ([Str ''kernel0.run(e2)''] @ [] @ [Str ''kernel1.run(f)'']). \<not> uses_key ?g ?k l"
    by simp
  have "\<exists>state' h'. plan_lines ?g
       ([] @ [Plan (FreeIfNotReusedLine (ex_buf ''e1'') 0)] @ [Str ''kernel0.run(e2)'']
          @ [Plan (FreeIfNotReusedLine (ex_flat ''e2'') 1)] @ []
          @ [Plan (AllocateLine (ex_buf ''f''))] @ [Str ''kernel1.run(f)'']
          @ [Plan (AllocateLine (ex_flat ''g''))] @ [Str ''kernel2.run(f, g)''])
       (init_state, (\<lambda>_. False))
     = Inr ([Plan (FreeIfNotReusedLine (ex_buf ''e1'') 0), Str ''kernel0.run(e2)'',
               Plan (FreeIfNotReusedLine (ex_flat ''e2'') 1),
               Plan (ReuseLine (ex_flat ''e2'') (ex_buf ''f'')), Str ''kernel1.run(f)'',
               Plan (ReuseLine (ex_buf ''e1'') (ex_flat ''g'')), Str ''kernel2.run(f, g)''], state', h')"
    by (simp add: ex_defs buffer_reuse_key_def sympy_product_def init_state_def push_def pop_def
        contains_def Let_def)
  then obtain state' h' where run: "plan_lines ?g
       ([] @ [Plan (FreeIfNotReusedLine (ex_buf ''e1'') 0)] @ [Str ''kernel0.run(e2)'']
          @ [Plan (FreeIfNotReusedLine (ex_flat ''e2'') 1)] @ []
          @ [Plan (AllocateLine (ex_buf ''f''))] @ [Str ''kernel1.run(f)'']
          @ [Plan (AllocateLine (ex_flat ''g''))] @ [Str ''kernel2.run(f, g)''])
       (init_state, (\<lambda>_. False))
     = Inr ([Plan (FreeIfNotReusedLine (ex_buf ''e1'') 0), Str ''kernel0.run(e2)'',
               Plan (FreeIfNotReusedLine (ex_flat ''e2'') 1),
               Plan (ReuseLine (ex_flat ''e2'') (ex_buf ''f'')), Str ''kernel1.run(f)'',
               Plan (ReuseLine (ex_buf ''e1'') (ex_flat ''g'')), Str ''kernel2.run(f, g)''], state', h')"
    by blast
  show ?thesis
    using run lifo_reuse [OF run live keys quiet, THEN conjunct1] by blast
qed

subsection \<open>Tail trimming\<close>

text \<open>
  What the loop removes is a suffix of planning lines whose \<^verbatim>\<open>node\<close> is not an
  output, and it stops at a planning line only when the \<^verbatim>\<open>node\<close> of that line is an
  output.
\<close>

lemma trim_tail_suffix:
  "trim_tail g ls = Inr ls' \<Longrightarrow>
   \<exists>suf. ls = ls' @ suf
     \<and> (\<forall>l \<in> set suf. \<exists>p n. l = Plan p \<and> node p = Some n \<and> get_name n \<notin> set (get_output_names g))"
proof (induction g ls rule: trim_tail.induct)
  case (1 g ls)
  show ?case
  proof (cases "ls = []")
    case True
    with "1.prems" show ?thesis by (simp add: trim_tail.simps)
  next
    case False
    note ne = this
    show ?thesis
    proof (cases "last ls")
      case (Plan p)
      show ?thesis
      proof (cases "node p")
        case None
        with "1.prems" ne Plan show ?thesis by (simp add: trim_tail.simps [of g ls])
      next
        case (Some n)
        show ?thesis
        proof (cases "get_name n \<notin> set (get_output_names g)")
          case True
          with "1.prems" ne Plan Some have "trim_tail g (butlast ls) = Inr ls'"
            by (simp add: trim_tail.simps [of g ls])
          from "1.IH" [OF ne Plan Some True this] obtain suf where
            s: "butlast ls = ls' @ suf"
              "\<forall>l \<in> set suf. \<exists>p n. l = Plan p \<and> node p = Some n \<and> get_name n \<notin> set (get_output_names g)"
            by blast
          have "ls = ls' @ (suf @ [last ls])"
            using s(1) ne append_butlast_last_id [of ls] by simp
          moreover have "\<forall>l \<in> set (suf @ [last ls]). \<exists>p n. l = Plan p \<and> node p = Some n
               \<and> get_name n \<notin> set (get_output_names g)"
            using s(2) Plan Some True by auto
          ultimately show ?thesis by blast
        next
          case False
          with "1.prems" ne Plan Some show ?thesis by (simp add: trim_tail.simps [of g ls])
        qed
      qed
    next
      case (Str s)
      with "1.prems" ne show ?thesis by (simp add: trim_tail.simps [of g ls])
    next
      case (DeferredLine n s)
      with "1.prems" ne show ?thesis by (simp add: trim_tail.simps [of g ls])
    qed
  qed
qed

lemma trim_tail_last:
  "trim_tail g ls = Inr ls' \<Longrightarrow> ls' \<noteq> [] \<Longrightarrow>
   (\<forall>p. last ls' = Plan p \<longrightarrow> (\<exists>n. node p = Some n \<and> get_name n \<in> set (get_output_names g)))"
proof (induction g ls rule: trim_tail.induct)
  case (1 g ls)
  show ?case
  proof (cases "ls = []")
    case True
    with "1.prems" show ?thesis by (simp add: trim_tail.simps)
  next
    case False
    note ne = this
    show ?thesis
    proof (cases "last ls")
      case (Plan p)
      show ?thesis
      proof (cases "node p")
        case None
        with "1.prems" ne Plan show ?thesis by (simp add: trim_tail.simps [of g ls])
      next
        case (Some n)
        show ?thesis
        proof (cases "get_name n \<notin> set (get_output_names g)")
          case True
          with "1.prems" ne Plan Some have "trim_tail g (butlast ls) = Inr ls'"
            by (simp add: trim_tail.simps [of g ls])
          from "1.IH" [OF ne Plan Some True this "1.prems"(2)] show ?thesis .
        next
          case False
          with "1.prems" ne Plan Some show ?thesis by (simp add: trim_tail.simps [of g ls])
        qed
      qed
    next
      case (Str s)
      with "1.prems" ne show ?thesis by (simp add: trim_tail.simps [of g ls])
    next
      case (DeferredLine n s)
      with "1.prems" ne show ?thesis by (simp add: trim_tail.simps [of g ls])
    qed
  qed
qed

text \<open>
  C2. The loop reads the attribute \<^verbatim>\<open>node\<close> of the last line, and the
  \<^verbatim>\<open>node\<close> of a reuse line is the buffer that is reused, not the buffer produced.
  After an inplace-reuse request of \<^verbatim>\<open>buf0\<close> as the output \<^verbatim>\<open>buf3\<close>, the last
  line is the reuse line that produces \<^verbatim>\<open>buf3\<close>; the loop removes it (and the
  allocation of \<^verbatim>\<open>buf0\<close>), and the generated body is the return statement of
  \<^verbatim>\<open>buf3\<close> alone.
\<close>

theorem tail_trim_drops_output_reuse:
  "requests (ex_graph {}) [InplaceReuse (ex_buf ''buf0'') (ex_buf ''buf3'')] init_wrapper
     = Inr \<lparr>lines = [Plan (AllocateLine (ex_buf ''buf0'')),
                      Plan (ReuseLine (ex_buf ''buf0'') (ex_buf ''buf3''))],
            allocated = {''buf3'', ''buf0''}, freed = {''buf0''},
            is_reused = (\<lambda>_. False), next_obj = 0\<rparr>
   \<and> get_name (ex_buf ''buf3'') \<in> set (get_output_names (ex_graph {}))
   \<and> trim_tail (ex_graph {})
        [Plan (AllocateLine (ex_buf ''buf0'')), Plan (ReuseLine (ex_buf ''buf0'') (ex_buf ''buf3''))]
      = Inr []
   \<and> generate (ex_graph {})
        \<lparr>lines = [Plan (AllocateLine (ex_buf ''buf0'')),
                  Plan (ReuseLine (ex_buf ''buf0'') (ex_buf ''buf3''))],
         allocated = {''buf3'', ''buf0''}, freed = {''buf0''},
         is_reused = (\<lambda>_. False), next_obj = 0\<rparr>
      = Inr ([Str ''return (buf3, )''],
             \<lparr>lines = [], allocated = {''buf3'', ''buf0''}, freed = {''buf0''},
              is_reused = (\<lambda>_. False), next_obj = 0\<rparr>)"
  by (simp add: ex_defs codegen_inplace_reuse_def buffer_reuse_key_def init_wrapper_def writeline_def
      trim_tail.simps generate_def init_state_def return_line_def)

subsection \<open>Free requests\<close>

text \<open>
  C5, as the claim states it, fails: for a buffer with an aliased layout the free request
  does not append a free line (a planning line) but the text \<^verbatim>\<open>del buf1\<close>. The
  difference shows in the output: the text line is not trimmed from the tail, a free
  line would be.
\<close>

theorem free_request_counterexample:
  "(\<exists>v. get_layout (ex_view ''buf1'' (ex_buf ''buf0'')) = AliasedLayout v)
   \<and> can_reuse (ex_graph {}) init_wrapper (ex_view ''buf1'' (ex_buf ''buf0''))
   \<and> lines (codegen_free (ex_graph {}) (ex_view ''buf1'' (ex_buf ''buf0'')) init_wrapper)
       \<noteq> lines init_wrapper @ [Plan (FreeLine (ex_view ''buf1'' (ex_buf ''buf0'')))]
   \<and> lines (codegen_free (ex_graph {}) (ex_view ''buf1'' (ex_buf ''buf0'')) init_wrapper)
       = [Str ''del buf1'']
   \<and> map_sum id fst (generate (ex_graph {})
         (codegen_free (ex_graph {}) (ex_view ''buf1'' (ex_buf ''buf0'')) init_wrapper))
       = Inr [Str ''del buf1'', Str ''return (buf3, )'']
   \<and> map_sum id fst (generate (ex_graph {})
         (init_wrapper\<lparr>lines := [Plan (FreeLine (ex_view ''buf1'' (ex_buf ''buf0'')))]\<rparr>))
       = Inr [Str ''return (buf3, )'']"
  by (simp add: ex_defs codegen_free_def can_reuse_def init_wrapper_def writeline_def
      trim_tail.simps generate_def init_state_def return_line_def Let_def FreeLine_plan_def)

text \<open>
  C5, amended. A free request for a buffer is a no-op when the buffer is removed, a graph
  input, a constant or already freed. Otherwise it marks the buffer freed, and for an
  aliased or multi-output layout it appends the text line \<^verbatim>\<open>del <name>\<close>, which is
  what a free line of the buffer renders but is no planning line: pass 1 leaves it alone
  and does not touch the pool, pass 2 writes it as it is. In all remaining cases it
  appends a new free-if-not-reused line, not yet reused, which pass 1 pushes onto the
  pool under the reuse key of the buffer.
\<close>

theorem free_request:
  "(can_reuse g w b \<longleftrightarrow>
      get_name b \<notin> removed_buffers g \<and> get_name b \<notin> graph_inputs g
      \<and> get_name b \<notin> constants g \<and> get_name b \<notin> freed w)
   \<and> (\<not> can_reuse g w b \<longrightarrow> codegen_free g b w = w)
   \<and> (can_reuse g w b \<and> ((\<exists>v. get_layout b = AliasedLayout v) \<or> get_layout b = MultiOutputLayout)
      \<longrightarrow> codegen_free g b w
            = w\<lparr>lines := lines w @ [Str (''del '' @ get_name b)],
                freed := insert (get_name b) (freed w)\<rparr>
        \<and> plan_lines g [Str (''del '' @ get_name b)] (state, h)
            = Inr ([Str (''del '' @ get_name b)], state, h)
        \<and> codegen_lines g h [Str (''del '' @ get_name b)] = Inr [Str (''del '' @ get_name b)]
        \<and> codegen g h (FreeLine b) = Inr [''del '' @ get_name b])
   \<and> (can_reuse g w b \<and> \<not> ((\<exists>v. get_layout b = AliasedLayout v) \<or> get_layout b = MultiOutputLayout)
      \<longrightarrow> codegen_free g b w
            = w\<lparr>lines := lines w @ [Plan (FreeIfNotReusedLine b (next_obj w))],
                freed := insert (get_name b) (freed w),
                is_reused := (is_reused w)(next_obj w := False),
                next_obj := Suc (next_obj w)\<rparr>
        \<and> (\<not> h i \<longrightarrow>
             plan g (FreeIfNotReusedLine b i) (state, h)
             = Inr (FreeIfNotReusedLine b i,
                    state\<lparr>reuse_pool := (reuse_pool state)
                       (buffer_reuse_key g b := reuse_pool state (buffer_reuse_key g b) @ [FreeObj b i])\<rparr>,
                    h)))"
proof -
  have c: "can_reuse g w b \<longleftrightarrow>
      get_name b \<notin> removed_buffers g \<and> get_name b \<notin> graph_inputs g
      \<and> get_name b \<notin> constants g \<and> get_name b \<notin> freed w"
    by (simp add: can_reuse_def Let_def)
  have n: "\<not> can_reuse g w b \<longrightarrow> codegen_free g b w = w"
    by (simp add: codegen_free_def Let_def)
  have a: "codegen_free g b w
            = w\<lparr>lines := lines w @ [Str (''del '' @ get_name b)],
                freed := insert (get_name b) (freed w)\<rparr>"
    if "can_reuse g w b" "(\<exists>v. get_layout b = AliasedLayout v) \<or> get_layout b = MultiOutputLayout"
    using that by (auto simp: codegen_free_def Let_def writeline_def)
  have r: "get_name b \<notin> removed_buffers g" if "can_reuse g w b"
    using that c by simp
  have p: "codegen_free g b w
            = w\<lparr>lines := lines w @ [Plan (FreeIfNotReusedLine b (next_obj w))],
                freed := insert (get_name b) (freed w),
                is_reused := (is_reused w)(next_obj w := False),
                next_obj := Suc (next_obj w)\<rparr>"
    if "can_reuse g w b" "\<not> ((\<exists>v. get_layout b = AliasedLayout v) \<or> get_layout b = MultiOutputLayout)"
    using that by (cases "get_layout b") (auto simp: codegen_free_def Let_def writeline_def)
  have q: "plan g (FreeIfNotReusedLine b i) (state, h)
             = Inr (FreeIfNotReusedLine b i,
                    state\<lparr>reuse_pool := (reuse_pool state)
                       (buffer_reuse_key g b := reuse_pool state (buffer_reuse_key g b) @ [FreeObj b i])\<rparr>,
                    h)"
    if "can_reuse g w b" "\<not> h i"
    using that r by (simp add: push_def)
  show ?thesis
    using c n a p q r by simp
qed

theorem free_request_witness:
  "codegen_free (ex_graph {}) (ex_buf ''arg0'') init_wrapper = init_wrapper
   \<and> codegen_free (ex_graph {}) (ex_view ''buf1'' (ex_buf ''buf0'')) init_wrapper
       = init_wrapper\<lparr>lines := lines init_wrapper @ [Str (''del '' @ ''buf1'')],
                       freed := insert ''buf1'' (freed init_wrapper)\<rparr>
   \<and> codegen_free (ex_graph {}) (ex_buf ''buf0'') init_wrapper
       = init_wrapper\<lparr>lines := lines init_wrapper @ [Plan (FreeIfNotReusedLine (ex_buf ''buf0'') 0)],
                       freed := insert ''buf0'' (freed init_wrapper),
                       is_reused := (is_reused init_wrapper)(0 := False),
                       next_obj := Suc 0\<rparr>"
proof -
  let ?g = "ex_graph {}"
  have n: "get_name (ex_buf ''arg0'') = ''arg0''" "get_name (ex_view ''buf1'' (ex_buf ''buf0'')) = ''buf1''"
    "get_name (ex_buf ''buf0'') = ''buf0''" "next_obj init_wrapper = 0"
    by (simp_all add: ex_defs init_wrapper_def)
  have 1: "\<not> can_reuse ?g init_wrapper (ex_buf ''arg0'')"
    by (simp add: can_reuse_def ex_defs)
  have 2: "can_reuse ?g init_wrapper (ex_view ''buf1'' (ex_buf ''buf0''))
           \<and> ((\<exists>v. get_layout (ex_view ''buf1'' (ex_buf ''buf0'')) = AliasedLayout v)
                \<or> get_layout (ex_view ''buf1'' (ex_buf ''buf0'')) = MultiOutputLayout)"
    by (simp add: can_reuse_def ex_defs init_wrapper_def)
  have 3: "can_reuse ?g init_wrapper (ex_buf ''buf0'')
           \<and> \<not> ((\<exists>v. get_layout (ex_buf ''buf0'') = AliasedLayout v)
                \<or> get_layout (ex_buf ''buf0'') = MultiOutputLayout)"
    by (simp add: can_reuse_def ex_defs init_wrapper_def)
  show ?thesis
    using 1 2 3
      free_request [of ?g init_wrapper "ex_buf ''arg0''" init_state "\<lambda>_. False" 0]
      free_request [of ?g init_wrapper "ex_view ''buf1'' (ex_buf ''buf0'')" init_state "\<lambda>_. False" 0]
      free_request [of ?g init_wrapper "ex_buf ''buf0''" init_state "\<lambda>_. False" 0]
    unfolding n by blast
qed

subsection \<open>Removed buffers\<close>

lemma pool_update_all:
  assumes "\<forall>k. \<forall>e \<in> set (pool k). P e" and "\<forall>e \<in> set xs. P e"
  shows "\<forall>k. \<forall>e \<in> set ((pool(k0 := xs)) k). P e"
  using assms by simp

lemma plan_live:
  assumes "plan g p (state, h) = Inr (p', state', h')"
    and "\<forall>k. \<forall>e \<in> set (reuse_pool state k). get_name (obj_node e) \<notin> removed_buffers g"
  shows "(\<forall>b \<in> set (line_buffers p'). get_name b \<notin> removed_buffers g)
         \<and> (\<forall>k. \<forall>e \<in> set (reuse_pool state' k). get_name (obj_node e) \<notin> removed_buffers g)"
proof (cases p)
  case (AllocateLine n)
  show ?thesis
  proof (cases "get_name n \<notin> removed_buffers g \<and> contains state (buffer_reuse_key g n)")
    case True
    let ?k = "buffer_reuse_key g n"
    from True have ne: "reuse_pool state ?k \<noteq> []" by (simp add: contains_def)
    from assms(1) AllocateLine True ne have
      p': "p' = ReuseLine (obj_node (last (reuse_pool state ?k))) n"
      and s': "state' = state\<lparr>reuse_pool := (reuse_pool state)(?k := butlast (reuse_pool state ?k))\<rparr>"
      by (auto simp: pop_def Let_def split: if_splits)
    have "last (reuse_pool state ?k) \<in> set (reuse_pool state ?k)"
      using ne by simp
    then have 1: "get_name (obj_node (last (reuse_pool state ?k))) \<notin> removed_buffers g"
      using assms(2) by blast
    have 2: "set (butlast (reuse_pool state ?k)) \<subseteq> set (reuse_pool state ?k)"
      by (auto dest: in_set_butlastD)
    have 3: "get_name (obj_node e) \<notin> removed_buffers g" if "e \<in> set (reuse_pool state' k)" for k e
    proof -
      from that 2 have "e \<in> set (reuse_pool state k)"
        by (cases "k = ?k") (auto simp: s')
      with assms(2) show ?thesis by blast
    qed
    have "\<forall>b \<in> set (line_buffers p'). get_name b \<notin> removed_buffers g"
      using 1 True by (simp add: p')
    with 3 show ?thesis by blast
  next
    case False
    with assms AllocateLine show ?thesis by (auto split: if_splits)
  qed
next
  case (FreeIfNotReusedLine n i)
  show ?thesis
  proof (cases "get_name n \<in> removed_buffers g")
    case True
    with assms FreeIfNotReusedLine show ?thesis by (auto split: if_splits)
  next
    case False
    let ?k = "buffer_reuse_key g n"
    from assms(1) FreeIfNotReusedLine False have
      p': "p' = FreeIfNotReusedLine n i"
      and s': "state' = state\<lparr>reuse_pool := (reuse_pool state)(?k := reuse_pool state ?k @ [FreeObj n i])\<rparr>"
      by (auto simp: push_def split: if_splits)
    have "\<forall>e \<in> set (reuse_pool state ?k). get_name (obj_node e) \<notin> removed_buffers g"
      using assms(2) by blast
    then have "\<forall>e \<in> set (reuse_pool state ?k @ [FreeObj n i]). get_name (obj_node e) \<notin> removed_buffers g"
      using False by simp
    from pool_update_all [OF assms(2) this]
    have "\<forall>k. \<forall>e \<in> set (reuse_pool state' k). get_name (obj_node e) \<notin> removed_buffers g"
      unfolding s' by simp
    then show ?thesis using False by (simp add: p')
  qed
next
  case (ReuseLine n r)
  with assms show ?thesis by (auto simp: FreeLine_plan_def split: if_splits)
next
  case (FreeLine n)
  with assms show ?thesis by (auto simp: FreeLine_plan_def split: if_splits)
next
  case NullLine
  with assms show ?thesis by auto
qed

lemma plan_lines_live:
  assumes "plan_lines g ls (state, h) = Inr (ls', state', h')"
    and "\<forall>k. \<forall>e \<in> set (reuse_pool state k). get_name (obj_node e) \<notin> removed_buffers g"
  shows "(\<forall>p. Plan p \<in> set ls' \<longrightarrow> (\<forall>b \<in> set (line_buffers p). get_name b \<notin> removed_buffers g))
         \<and> (\<forall>k. \<forall>e \<in> set (reuse_pool state' k). get_name (obj_node e) \<notin> removed_buffers g)"
  using assms
proof (induction ls arbitrary: state h ls')
  case Nil
  then show ?case by simp
next
  case (Cons l ls)
  show ?case
  proof (cases l)
    case (Plan p)
    from Cons.prems(1) Plan obtain p' s1 h1 ls1 where
      1: "plan g p (state, h) = Inr (p', s1, h1)" and 2: "plan_lines g ls (s1, h1) = Inr (ls1, state', h')"
      and 3: "ls' = Plan p' # ls1"
      by (auto split: sum.splits)
    note a = plan_live [OF 1 Cons.prems(2)]
    from a have "\<forall>k. \<forall>e \<in> set (reuse_pool s1 k). get_name (obj_node e) \<notin> removed_buffers g"
      by blast
    note b = Cons.IH [OF 2 this]
    show ?thesis using a b 3 by auto
  next
    case (Str s)
    from Cons.prems(1) Str obtain ls1 where
      2: "plan_lines g ls (state, h) = Inr (ls1, state', h')" and 3: "ls' = l # ls1"
      by (auto split: sum.splits)
    show ?thesis using Cons.IH [OF 2 Cons.prems(2)] 3 Str by auto
  next
    case (DeferredLine n s)
    from Cons.prems(1) DeferredLine obtain ls1 where
      2: "plan_lines g ls (state, h) = Inr (ls1, state', h')" and 3: "ls' = l # ls1"
      by (auto split: sum.splits)
    show ?thesis using Cons.IH [OF 2 Cons.prems(2)] 3 DeferredLine by auto
  qed
qed

lemma plan_lines_text:
  assumes "plan_lines g ls (state, h) = Inr (ls', state', h')" and "l \<in> set ls'" and "\<forall>p. l \<noteq> Plan p"
  shows "l \<in> set ls"
  using assms
proof (induction ls arbitrary: state h ls')
  case Nil
  then show ?case by simp
next
  case (Cons x ls)
  show ?case
  proof (cases x)
    case (Plan p)
    from Cons.prems(1) Plan obtain p' s1 h1 ls1 where
      2: "plan_lines g ls (s1, h1) = Inr (ls1, state', h')" and 3: "ls' = Plan p' # ls1"
      by (auto split: sum.splits)
    from Cons.prems(2,3) 3 have "l \<in> set ls1" by auto
    from Cons.IH [OF 2 this Cons.prems(3)] show ?thesis by simp
  next
    case (Str s)
    from Cons.prems(1) Str obtain ls1 where
      2: "plan_lines g ls (state, h) = Inr (ls1, state', h')" and 3: "ls' = x # ls1"
      by (auto split: sum.splits)
    show ?thesis using Cons.IH [OF 2 _ Cons.prems(3)] Cons.prems(2) 3 by auto
  next
    case (DeferredLine n s)
    from Cons.prems(1) DeferredLine obtain ls1 where
      2: "plan_lines g ls (state, h) = Inr (ls1, state', h')" and 3: "ls' = x # ls1"
      by (auto split: sum.splits)
    show ?thesis using Cons.IH [OF 2 _ Cons.prems(3)] Cons.prems(2) 3 by auto
  qed
qed

lemma codegen_lines_origin:
  assumes "codegen_lines g h ls = Inr out" and "s \<in> set out"
  shows "(s \<in> set ls \<and> (\<forall>p. s \<noteq> Plan p))
         \<or> (\<exists>p ss. Plan p \<in> set ls \<and> codegen g h p = Inr ss \<and> s \<in> Str ` set ss)"
  using assms
proof (induction ls arbitrary: out)
  case Nil
  then show ?case by simp
next
  case (Cons l ls)
  from Cons.prems(1) obtain o1 o2 where
    1: "(case l of Plan p \<Rightarrow> (case codegen g h p of Inl e \<Rightarrow> Inl e | Inr ss \<Rightarrow> Inr (map Str ss))
                 | _ \<Rightarrow> Inr [l]) = Inr o1"
    and 2: "codegen_lines g h ls = Inr o2" and 3: "out = o1 @ o2"
    by (auto split: sum.splits)
  from Cons.prems(2) 3 consider "s \<in> set o1" | "s \<in> set o2" by auto
  then show ?case
  proof cases
    case 1
    with \<open>_ = Inr o1\<close> show ?thesis
      by (cases l) (auto split: sum.splits)
  next
    case 2
    from Cons.IH [OF \<open>codegen_lines g h ls = Inr o2\<close> 2] show ?thesis by auto
  qed
qed

lemma tokens_from_sep:
  "\<not> ident_char c \<Longrightarrow> tokens_from cur (a @ c # b) = tokens_from cur a @ tokens_from [] b"
  by (induction a arbitrary: cur) auto

lemma tokens_from_ident:
  "list_all ident_char n \<Longrightarrow> tokens_from cur (n @ s) = tokens_from (cur @ n) s"
  by (induction n arbitrary: cur) auto

lemma tokens_identifier: "is_identifier n \<Longrightarrow> tokens n = [n]"
  using tokens_from_ident [of n "[]" "[]"] by (simp add: is_identifier_def tokens_def)

lemma tokens_del: "tokens (''del '' @ n) = ''del'' # tokens n"
  by (simp add: tokens_def ident_char_def)

lemma tokens_alloc:
  "tokens (make_buffer_allocation g b)
   = tokens (get_name b) @ [''empty_strided''] @ tokens (codegen_shape_tuple g (get_size b))
     @ tokens (codegen_shape_tuple g (get_stride b)) @ [''device'']
     @ tokens (device_type (get_device b)) @ [''dtype''] @ tokens (get_dtype b)"
  by (simp add: tokens_def make_buffer_allocation_def Let_def tokens_from_sep ident_char_def)

lemma tokens_rebind:
  "tokens (new @ '' = '' @ old @ ''; del '' @ old @ ''  # reuse'')
   = tokens new @ tokens old @ [''del''] @ tokens old @ [''reuse'']"
  by (simp add: tokens_def tokens_from_sep ident_char_def)

lemma tokens_reinterpret:
  "tokens (new @ '' = as_strided('' @ old @ '', '' @ S @ '', '' @ T @ ''); del '' @ old @ ''  # reuse'')
   = tokens new @ [''as_strided''] @ tokens old @ tokens S @ tokens T @ [''del''] @ tokens old
     @ [''reuse'']"
  by (simp add: tokens_def tokens_from_sep ident_char_def)

lemma codegen_mentions:
  assumes "codegen g h p = Inr ss" and "s \<in> set ss" and "mentions n s"
  shows "n \<in> set statement_words
         \<or> (\<exists>b \<in> set (line_buffers p). mentions n (get_name b) \<or> \<not> attribute_free g n b)"
proof (cases p)
  case (AllocateLine b)
  with assms have "n \<in> set (tokens (make_buffer_allocation g b))"
    by (auto simp: mentions_def split: if_splits)
  then show ?thesis
    unfolding tokens_alloc using AllocateLine
    by (auto simp: mentions_def attribute_free_def statement_words_def)
next
  case (FreeIfNotReusedLine b i)
  with assms have "n \<in> set (tokens (''del '' @ get_name b))"
    by (auto simp: mentions_def split: if_splits)
  then show ?thesis
    unfolding tokens_del using FreeIfNotReusedLine
    by (auto simp: mentions_def statement_words_def)
next
  case (ReuseLine old new)
  show ?thesis
  proof (cases "get_size old = get_size new \<and> get_stride old = get_stride new")
    case True
    with assms ReuseLine have
      "n \<in> set (tokens (get_name new @ '' = '' @ get_name old @ ''; del '' @ get_name old @ ''  # reuse''))"
      by (auto simp: mentions_def make_buffer_reuse_def split: if_splits)
    then show ?thesis
      unfolding tokens_rebind using ReuseLine
      by (auto simp: mentions_def statement_words_def)
  next
    case False
    with assms ReuseLine have
      "n \<in> set (tokens (get_name new @ '' = as_strided('' @ get_name old @ '', ''
                @ codegen_shape_tuple g (get_size new) @ '', ''
                @ codegen_shape_tuple g (get_stride new) @ ''); del '' @ get_name old @ ''  # reuse''))"
      by (auto simp: mentions_def make_buffer_reuse_def split: if_splits)
    then show ?thesis
      unfolding tokens_reinterpret using ReuseLine
      by (auto simp: mentions_def attribute_free_def statement_words_def)
  qed
next
  case (FreeLine b)
  with assms have "n \<in> set (tokens (''del '' @ get_name b))"
    by (auto simp: mentions_def split: if_splits)
  then show ?thesis
    unfolding tokens_del using FreeLine
    by (auto simp: mentions_def statement_words_def)
next
  case NullLine
  with assms show ?thesis by simp
qed

lemma codegen_erasure:
  assumes "codegen g h p = Inr ss" and "s \<in> set ss"
    and "\<forall>b \<in> set (line_buffers p). get_name b \<notin> removed_buffers g"
    and "n \<in> removed_buffers g" and "n \<notin> set statement_words"
    and "\<forall>b \<in> set (line_buffers p). is_identifier (get_name b) \<and> attribute_free g n b"
  shows "\<not> mentions n s"
proof
  assume "mentions n s"
  from codegen_mentions [OF assms(1,2) this] assms(5,6)
  obtain b where b: "b \<in> set (line_buffers p)" "mentions n (get_name b)"
    by blast
  from assms(6) b(1) have "tokens (get_name b) = [get_name b]"
    using tokens_identifier by blast
  with b(2) have "n = get_name b" by (simp add: mentions_def)
  with assms(3,4) b(1) show False by blast
qed

lemma codegen_allocation_text:
  "codegen_allocation g b w = Inr w' \<Longrightarrow> x \<in> set (lines w') \<Longrightarrow>
   x \<in> set (lines w) \<or> (\<exists>p. x = Plan p) \<or> (\<exists>nm t. x = DeferredLine nm t)"
proof (induction g b w arbitrary: w' rule: codegen_allocation.induct)
  case (1 g name dev dtype sz st lay w)
  show ?case
  proof (cases "name \<in> removed_buffers g \<or> name \<in> allocated w")
    case True
    with "1.prems" show ?thesis by auto
  next
    case False
    let ?w1 = "w\<lparr>allocated := insert name (allocated w)\<rparr>"
    show ?thesis
    proof (cases lay)
      case (AliasedLayout v)
      show ?thesis
      proof (cases v)
        case NonReinterpretView
        with "1.prems" False AliasedLayout show ?thesis by simp
      next
        case (ReinterpretView data ref)
        from "1.prems"(1) False AliasedLayout ReinterpretView obtain w2 where
          2: "codegen_allocation g data ?w1 = Inr w2"
          and w': "w' = writeline (DeferredLine name (name @ '' = '' @ ref @ ''  # alias'')) w2"
          by (auto simp: Let_def split: sum.splits)
        from "1.prems"(2) have "x \<in> set (lines w2) \<or> (\<exists>nm t. x = DeferredLine nm t)"
          by (auto simp: w' writeline_def)
        with "1.IH" [OF False refl AliasedLayout ReinterpretView 2] show ?thesis
          by auto
      qed
    next
      case SimpleLayout
      with "1.prems" False show ?thesis
        by (auto simp: writeline_def Let_def)
    next
      case MutationLayout
      with "1.prems" False show ?thesis
        by (auto simp: Let_def)
    next
      case MultiOutputLayout
      with "1.prems" False show ?thesis
        by (auto simp: writeline_def Let_def)
    qed
  qed
qed

lemma codegen_free_text:
  assumes "x \<in> set (lines (codegen_free g b w))"
  shows "x \<in> set (lines w) \<or> (\<exists>p. x = Plan p)
         \<or> (x = Str (''del '' @ get_name b) \<and> get_name b \<notin> removed_buffers g)"
proof (cases "can_reuse g w b")
  case False
  with assms show ?thesis by (simp add: codegen_free_def Let_def)
next
  case True
  then have "get_name b \<notin> removed_buffers g"
    by (simp add: can_reuse_def Let_def split: if_splits)
  with assms True show ?thesis
    by (cases "get_layout b") (auto simp: codegen_free_def writeline_def Let_def)
qed

lemma issue_text:
  assumes "issue g r w = Inr w'" and "x \<in> set (lines w')"
  shows "x \<in> set (lines w) \<or> (\<exists>p. x = Plan p) \<or> (\<exists>nm t. x = DeferredLine nm t)
         \<or> (\<exists>t. r = Text t \<and> x = Str t)
         \<or> (\<exists>b. r = Free b \<and> x = Str (''del '' @ get_name b) \<and> get_name b \<notin> removed_buffers g)"
proof (cases r)
  case (Allocation b)
  with assms codegen_allocation_text [of g b w w' x] show ?thesis by auto
next
  case (Free b)
  with assms codegen_free_text [of x g b w] show ?thesis by auto
next
  case (InplaceReuse inp out)
  from assms(1) InplaceReuse obtain w1 where
    1: "codegen_allocation g inp w = Inr w1"
    and w': "w' = writeline (Plan (ReuseLine inp out))
                   (w1\<lparr>freed := insert (get_name inp) (freed w1),
                       allocated := insert (get_name out) (allocated w1)\<rparr>)"
    by (auto simp: codegen_inplace_reuse_def split: if_splits sum.splits)
  from assms(2) have "x \<in> set (lines w1) \<or> (\<exists>p. x = Plan p)"
    by (auto simp: w' writeline_def)
  with codegen_allocation_text [OF 1] show ?thesis by auto
next
  case (Text t)
  with assms show ?thesis by (auto simp: writeline_def)
qed

lemma requests_text:
  assumes "requests g rs w = Inr w'" and "x \<in> set (lines w')"
  shows "x \<in> set (lines w) \<or> (\<exists>p. x = Plan p) \<or> (\<exists>nm t. x = DeferredLine nm t)
         \<or> (\<exists>t. Text t \<in> set rs \<and> x = Str t)
         \<or> (\<exists>b. Free b \<in> set rs \<and> x = Str (''del '' @ get_name b)
                \<and> get_name b \<notin> removed_buffers g)"
  using assms
proof (induction rs arbitrary: w)
  case Nil
  then show ?case by simp
next
  case (Cons r rs)
  from Cons.prems(1) obtain w1 where 1: "issue g r w = Inr w1" and 2: "requests g rs w1 = Inr w'"
    by (auto split: sum.splits)
  from Cons.IH [OF 2 Cons.prems(2)] consider
    (old) "x \<in> set (lines w1)"
    | (new) "(\<exists>p. x = Plan p) \<or> (\<exists>nm t. x = DeferredLine nm t)
         \<or> (\<exists>t. Text t \<in> set rs \<and> x = Str t)
         \<or> (\<exists>b. Free b \<in> set rs \<and> x = Str (''del '' @ get_name b)
                \<and> get_name b \<notin> removed_buffers g)"
    by blast
  then show ?case
  proof cases
    case old
    from issue_text [OF 1 old] show ?thesis by auto
  next
    case new
    then show ?thesis by auto
  qed
qed

lemma del_erasure:
  assumes "get_name b \<notin> removed_buffers g" and "n \<in> removed_buffers g"
    and "n \<notin> set statement_words" and "is_identifier (get_name b)"
  shows "\<not> mentions n (''del '' @ get_name b)"
proof -
  have "tokens (''del '' @ get_name b) = [''del'', get_name b]"
    unfolding tokens_del using tokens_identifier [OF assms(4)] by simp
  moreover have "n \<noteq> ''del''" "n \<noteq> get_name b"
    using assms by (auto simp: statement_words_def)
  ultimately show ?thesis by (simp add: mentions_def)
qed

text \<open>
  C7, as the claim states it, fails, because the text that a request writes is rendered
  as it was written. The free request for a buffer with an aliased layout writes the
  text \<^verbatim>\<open>del buf1\<close>; when \<^verbatim>\<open>buf1\<close> is removed after the request, the output
  still holds that statement. And the alias binding that an allocation request writes
  for the view \<^verbatim>\<open>buf1\<close> of a removed buffer \<^verbatim>\<open>buf0\<close> mentions \<^verbatim>\<open>buf0\<close>.
\<close>

theorem removed_buffer_erasure_counterexample:
  "requests (ex_graph {}) [Free (ex_view ''buf1'' (ex_buf ''buf0''))] init_wrapper
     = Inr \<lparr>lines = [Str ''del buf1''], allocated = {}, freed = {''buf1''},
            is_reused = (\<lambda>_. False), next_obj = 0\<rparr>
   \<and> map_sum id fst (generate (ex_graph {''buf1''})
         \<lparr>lines = [Str ''del buf1''], allocated = {}, freed = {''buf1''},
          is_reused = (\<lambda>_. False), next_obj = 0\<rparr>)
      = Inr [Str ''del buf1'', Str ''return (buf3, )'']
   \<and> ''buf1'' \<in> removed_buffers (ex_graph {''buf1''})
   \<and> mentions ''buf1'' ''del buf1''
   \<and> requests (ex_graph {''buf0''}) [Allocation (ex_view ''buf1'' (ex_buf ''buf0''))] init_wrapper
     = Inr \<lparr>lines = [DeferredLine ''buf1'' ''buf1 = as_strided(buf0, (16, ), (1, ))  # alias''],
            allocated = {''buf1''}, freed = {},
            is_reused = (\<lambda>_. False), next_obj = 0\<rparr>
   \<and> map_sum id fst (generate (ex_graph {''buf0''})
         \<lparr>lines = [DeferredLine ''buf1'' ''buf1 = as_strided(buf0, (16, ), (1, ))  # alias''],
          allocated = {''buf1''}, freed = {},
          is_reused = (\<lambda>_. False), next_obj = 0\<rparr>)
      = Inr [DeferredLine ''buf1'' ''buf1 = as_strided(buf0, (16, ), (1, ))  # alias'',
             Str ''return (buf3, )'']
   \<and> ''buf0'' \<in> removed_buffers (ex_graph {''buf0''})
   \<and> ''buf1'' \<notin> removed_buffers (ex_graph {''buf0''})
   \<and> mentions ''buf0'' ''buf1 = as_strided(buf0, (16, ), (1, ))  # alias''"
proof -
  have g: "removed_buffers (ex_graph R) = R" "get_output_names (ex_graph R) = [''buf3'']"
    "graph_inputs (ex_graph R) = {''arg0''}" "constants (ex_graph R) = {''const0''}"
    "output_refs (ex_graph R) = [''buf3'']" for R
    by (simp_all add: ex_graph_def)
  have 1: "requests (ex_graph {}) [Free (ex_view ''buf1'' (ex_buf ''buf0''))] init_wrapper
     = Inr \<lparr>lines = [Str ''del buf1''], allocated = {}, freed = {''buf1''},
            is_reused = (\<lambda>_. False), next_obj = 0\<rparr>"
    by (simp add: g ex_view_def ex_buf_def cpu_def codegen_free_def can_reuse_def init_wrapper_def
        writeline_def Let_def)
  have 2: "map_sum id fst (generate (ex_graph {''buf1''})
         \<lparr>lines = [Str ''del buf1''], allocated = {}, freed = {''buf1''},
          is_reused = (\<lambda>_. False), next_obj = 0\<rparr>)
      = Inr [Str ''del buf1'', Str ''return (buf3, )'']"
    by (simp add: generate_def trim_tail.simps g return_line_def)
  have 3: "mentions ''buf1'' ''del buf1''"
    by (simp add: mentions_def tokens_def ident_char_def)
  have 4: "requests (ex_graph {''buf0''}) [Allocation (ex_view ''buf1'' (ex_buf ''buf0''))] init_wrapper
     = Inr \<lparr>lines = [DeferredLine ''buf1'' ''buf1 = as_strided(buf0, (16, ), (1, ))  # alias''],
            allocated = {''buf1''}, freed = {},
            is_reused = (\<lambda>_. False), next_obj = 0\<rparr>"
    by (simp add: g ex_view_def ex_buf_def cpu_def init_wrapper_def writeline_def Let_def)
  have 5: "map_sum id fst (generate (ex_graph {''buf0''})
         \<lparr>lines = [DeferredLine ''buf1'' ''buf1 = as_strided(buf0, (16, ), (1, ))  # alias''],
          allocated = {''buf1''}, freed = {},
          is_reused = (\<lambda>_. False), next_obj = 0\<rparr>)
      = Inr [DeferredLine ''buf1'' ''buf1 = as_strided(buf0, (16, ), (1, ))  # alias'',
             Str ''return (buf3, )'']"
    by (simp add: generate_def trim_tail.simps g return_line_def)
  have 6: "mentions ''buf0'' ''buf1 = as_strided(buf0, (16, ), (1, ))  # alias''"
    by (simp add: mentions_def tokens_def ident_char_def)
  from 1 2 3 4 5 6 show ?thesis by (simp add: g)
qed

text \<open>
  C7, amended. When generation succeeds, no planning line of the planned sequence holds a
  removed buffer, whether as the buffer of an allocation, a free-if-not-reused or a free
  line or as either buffer of a reuse line. Every statement of the output is the return
  statement, or a line of the input that is no planning line, written as it is, or a
  statement that pass 2 rendered for a planning line of the planned sequence. No
  statement rendered for a planning line mentions a removed name, for buffer names that
  are identifiers and a removed name that is neither a word of the statement forms nor a
  token of the size, stride, device or element type texts of the line's buffers. Of the
  lines that are no planning lines, those that a sequence of requests on a fresh wrapper
  leaves are alias bindings, the text lines of the caller, and the \<^verbatim>\<open>del\<close> texts
  of free requests, each for a buffer that was not removed at the request and so
  mentioning no name removed then.
\<close>

theorem removed_buffer_erasure:
  assumes "generate g w = Inr (out, w')"
  shows "(\<forall>p. Plan p \<in> set (lines w')
            \<longrightarrow> (\<forall>b \<in> set (line_buffers p). get_name b \<notin> removed_buffers g))
         \<and> (\<forall>x \<in> set out.
               x = return_line g
               \<or> (x \<in> set (lines w) \<and> (\<forall>p. x \<noteq> Plan p))
               \<or> (\<exists>p ss s. Plan p \<in> set (lines w') \<and> codegen g (is_reused w') p = Inr ss
                     \<and> s \<in> set ss \<and> x = Str s))
         \<and> (\<forall>p ss s n.
               Plan p \<in> set (lines w') \<and> codegen g (is_reused w') p = Inr ss \<and> s \<in> set ss
               \<and> n \<in> removed_buffers g \<and> n \<notin> set statement_words
               \<and> (\<forall>b \<in> set (line_buffers p). is_identifier (get_name b) \<and> attribute_free g n b)
               \<longrightarrow> \<not> mentions n s)
         \<and> (requests g rs init_wrapper = Inr w
              \<longrightarrow> (\<forall>x \<in> set (lines w).
                    (\<exists>p. x = Plan p) \<or> (\<exists>nm t. x = DeferredLine nm t)
                    \<or> (\<exists>t. Text t \<in> set rs \<and> x = Str t)
                    \<or> (\<exists>b. Free b \<in> set rs \<and> x = Str (''del '' @ get_name b)
                          \<and> get_name b \<notin> removed_buffers g
                          \<and> (\<forall>n \<in> removed_buffers g.
                                n \<notin> set statement_words \<and> is_identifier (get_name b)
                                \<longrightarrow> \<not> mentions n (''del '' @ get_name b)))))"
proof -
  from assms obtain trimmed planned st h o1 where
    t: "trim_tail g (lines w) = Inr trimmed"
    and p: "plan_lines g trimmed (init_state, is_reused w) = Inr (planned, st, h)"
    and c: "codegen_lines g h planned = Inr o1"
    and o: "out = o1 @ [return_line g]" and w': "w' = w\<lparr>lines := planned, is_reused := h\<rparr>"
    by (auto simp: generate_def split: sum.splits)
  have e: "\<forall>k. \<forall>e \<in> set (reuse_pool init_state k). get_name (obj_node e) \<notin> removed_buffers g"
    by (simp add: init_state_def)
  from plan_lines_live [OF p e]
  have live: "\<forall>p. Plan p \<in> set planned \<longrightarrow> (\<forall>b \<in> set (line_buffers p). get_name b \<notin> removed_buffers g)"
    by blast
  from trim_tail_suffix [OF t] have sub: "set trimmed \<subseteq> set (lines w)" by auto
  have A: "\<forall>p. Plan p \<in> set (lines w')
            \<longrightarrow> (\<forall>b \<in> set (line_buffers p). get_name b \<notin> removed_buffers g)"
    using live by (simp add: w')
  have "x = return_line g
        \<or> (x \<in> set (lines w) \<and> (\<forall>p. x \<noteq> Plan p))
        \<or> (\<exists>p ss s. Plan p \<in> set planned \<and> codegen g h p = Inr ss \<and> s \<in> set ss \<and> x = Str s)"
    if "x \<in> set out" for x
  proof (cases "x \<in> set o1")
    case True
    from codegen_lines_origin [OF c True] show ?thesis
    proof
      assume a: "x \<in> set planned \<and> (\<forall>p. x \<noteq> Plan p)"
      then have "x \<in> set trimmed" using plan_lines_text [OF p] by blast
      with sub a show ?thesis by blast
    next
      assume "\<exists>p ss. Plan p \<in> set planned \<and> codegen g h p = Inr ss \<and> x \<in> Str ` set ss"
      then show ?thesis by blast
    qed
  next
    case False
    with that o show ?thesis by simp
  qed
  then have B: "\<forall>x \<in> set out.
               x = return_line g
               \<or> (x \<in> set (lines w) \<and> (\<forall>p. x \<noteq> Plan p))
               \<or> (\<exists>p ss s. Plan p \<in> set (lines w') \<and> codegen g (is_reused w') p = Inr ss
                     \<and> s \<in> set ss \<and> x = Str s)"
    by (simp add: w')
  have C: "\<forall>p ss s n.
               Plan p \<in> set (lines w') \<and> codegen g (is_reused w') p = Inr ss \<and> s \<in> set ss
               \<and> n \<in> removed_buffers g \<and> n \<notin> set statement_words
               \<and> (\<forall>b \<in> set (line_buffers p). is_identifier (get_name b) \<and> attribute_free g n b)
               \<longrightarrow> \<not> mentions n s"
    using codegen_erasure A by blast
  have D: "(\<exists>p. x = Plan p) \<or> (\<exists>nm t. x = DeferredLine nm t)
           \<or> (\<exists>t. Text t \<in> set rs \<and> x = Str t)
           \<or> (\<exists>b. Free b \<in> set rs \<and> x = Str (''del '' @ get_name b)
                 \<and> get_name b \<notin> removed_buffers g
                 \<and> (\<forall>n \<in> removed_buffers g.
                       n \<notin> set statement_words \<and> is_identifier (get_name b)
                       \<longrightarrow> \<not> mentions n (''del '' @ get_name b)))"
    if r: "requests g rs init_wrapper = Inr w" and x: "x \<in> set (lines w)" for x
  proof -
    have "x \<notin> set (lines init_wrapper)" by (simp add: init_wrapper_def)
    with requests_text [OF r x] consider
      (a) "(\<exists>p. x = Plan p) \<or> (\<exists>nm t. x = DeferredLine nm t) \<or> (\<exists>t. Text t \<in> set rs \<and> x = Str t)"
      | (b) b where "Free b \<in> set rs" "x = Str (''del '' @ get_name b)" "get_name b \<notin> removed_buffers g"
      by blast
    then show ?thesis
    proof cases
      case a
      then show ?thesis by blast
    next
      case b
      with del_erasure [OF b(3)] show ?thesis by blast
    qed
  qed
  from A B C D show ?thesis by blast
qed

theorem removed_buffer_erasure_witness:
  "(\<exists>out w'.
      generate (ex_graph {''d''})
        (init_wrapper\<lparr>lines := [Plan (AllocateLine (ex_buf ''d'')), Plan (AllocateLine (ex_buf ''buf3'')),
                                 Plan (FreeIfNotReusedLine (ex_buf ''d'') 0), Str ''kernel0.run(buf3)'']\<rparr>)
      = Inr (out, w')
      \<and> out = [Str (make_buffer_allocation (ex_graph {''d''}) (ex_buf ''buf3'')),
                Str ''kernel0.run(buf3)'', return_line (ex_graph {''d''})]
      \<and> lines w' = [Plan NullLine, Plan (AllocateLine (ex_buf ''buf3'')), Plan NullLine,
                      Str ''kernel0.run(buf3)'']
      \<and> (\<forall>p. Plan p \<in> set (lines w')
             \<longrightarrow> (\<forall>b \<in> set (line_buffers p). get_name b \<notin> removed_buffers (ex_graph {''d''})))
      \<and> \<not> mentions ''d'' (make_buffer_allocation (ex_graph {''d''}) (ex_buf ''buf3'')))
   \<and> (\<exists>w out w'.
        requests (ex_graph {''d''})
          [Free (ex_view ''buf1'' (ex_buf ''buf0'')), Text ''kernel0.run(buf3)''] init_wrapper = Inr w
        \<and> lines w = [Str ''del buf1'', Str ''kernel0.run(buf3)'']
        \<and> generate (ex_graph {''d''}) w = Inr (out, w')
        \<and> out = [Str ''del buf1'', Str ''kernel0.run(buf3)'', return_line (ex_graph {''d''})]
        \<and> \<not> mentions ''d'' ''del buf1'')"
proof -
  let ?g = "ex_graph {''d''}"
  let ?w = "init_wrapper\<lparr>lines := [Plan (AllocateLine (ex_buf ''d'')), Plan (AllocateLine (ex_buf ''buf3'')),
                                Plan (FreeIfNotReusedLine (ex_buf ''d'') 0), Str ''kernel0.run(buf3)'']\<rparr>"
  let ?rs = "[Free (ex_view ''buf1'' (ex_buf ''buf0'')), Text ''kernel0.run(buf3)'']"
  have g: "removed_buffers ?g = {''d''}" "get_output_names ?g = [''buf3'']"
    "graph_inputs ?g = {''arg0''}" "constants ?g = {''const0''}"
    "codegen_shape_tuple ?g = shape_text"
    by (simp_all add: ex_graph_def)
  have n: "get_name (ex_buf x) = x" for x
    by (simp add: ex_buf_def)
  have k: "\<not> contains init_state k" for k
    by (simp add: contains_def init_state_def)
  have first: "\<exists>out w'.
      generate ?g ?w = Inr (out, w')
      \<and> out = [Str (make_buffer_allocation ?g (ex_buf ''buf3'')), Str ''kernel0.run(buf3)'',
                return_line ?g]
      \<and> lines w' = [Plan NullLine, Plan (AllocateLine (ex_buf ''buf3'')), Plan NullLine,
                      Str ''kernel0.run(buf3)'']
      \<and> (\<forall>p. Plan p \<in> set (lines w')
             \<longrightarrow> (\<forall>b \<in> set (line_buffers p). get_name b \<notin> removed_buffers ?g))
      \<and> \<not> mentions ''d'' (make_buffer_allocation ?g (ex_buf ''buf3''))"
  proof -
    have "\<exists>w'. generate ?g ?w
           = Inr ([Str (make_buffer_allocation ?g (ex_buf ''buf3'')), Str ''kernel0.run(buf3)'',
                   return_line ?g], w')
          \<and> lines w' = [Plan NullLine, Plan (AllocateLine (ex_buf ''buf3'')), Plan NullLine,
                       Str ''kernel0.run(buf3)'']"
      by (simp add: generate_def trim_tail.simps init_wrapper_def g n k)
    then obtain w' where run: "generate ?g ?w
           = Inr ([Str (make_buffer_allocation ?g (ex_buf ''buf3'')), Str ''kernel0.run(buf3)'',
                   return_line ?g], w')"
      and l: "lines w' = [Plan NullLine, Plan (AllocateLine (ex_buf ''buf3'')), Plan NullLine,
                       Str ''kernel0.run(buf3)'']"
      by blast
    note t = removed_buffer_erasure [OF run]
    have h1: "Plan (AllocateLine (ex_buf ''buf3'')) \<in> set (lines w')"
      by (simp add: l)
    have h2: "codegen ?g (is_reused w') (AllocateLine (ex_buf ''buf3''))
              = Inr [make_buffer_allocation ?g (ex_buf ''buf3'')]"
      by (simp add: g n)
    have h3: "make_buffer_allocation ?g (ex_buf ''buf3'') \<in> set [make_buffer_allocation ?g (ex_buf ''buf3'')]"
      by simp
    have h4: "''d'' \<in> removed_buffers ?g \<and> ''d'' \<notin> set statement_words"
      by (simp add: g statement_words_def)
    have h5: "\<forall>b \<in> set (line_buffers (AllocateLine (ex_buf ''buf3''))).
                is_identifier (get_name b) \<and> attribute_free ?g ''d'' b"
      by (simp add: n is_identifier_def ident_char_def attribute_free_def g mentions_def tokens_def
          ex_buf_def cpu_def shape_text_def)
    from t h1 h2 h3 h4 h5
    have "\<not> mentions ''d'' (make_buffer_allocation ?g (ex_buf ''buf3''))"
      by blast
    moreover from t have "\<forall>p. Plan p \<in> set (lines w')
             \<longrightarrow> (\<forall>b \<in> set (line_buffers p). get_name b \<notin> removed_buffers ?g)"
      by blast
    ultimately show ?thesis using run l by blast
  qed
  have second: "\<exists>w out w'.
        requests ?g ?rs init_wrapper = Inr w
        \<and> lines w = [Str ''del buf1'', Str ''kernel0.run(buf3)'']
        \<and> generate ?g w = Inr (out, w')
        \<and> out = [Str ''del buf1'', Str ''kernel0.run(buf3)'', return_line ?g]
        \<and> \<not> mentions ''d'' ''del buf1''"
  proof -
    have v: "get_name (ex_view ''buf1'' (ex_buf ''buf0'')) = ''buf1''"
      by (simp add: ex_view_def)
    have "\<exists>w. requests ?g ?rs init_wrapper = Inr w
           \<and> lines w = [Str ''del buf1'', Str ''kernel0.run(buf3)'']"
      by (simp add: g ex_view_def codegen_free_def can_reuse_def init_wrapper_def writeline_def Let_def)
    then obtain w where run: "requests ?g ?rs init_wrapper = Inr w"
      and l: "lines w = [Str ''del buf1'', Str ''kernel0.run(buf3)'']"
      by blast
    have "\<exists>w'. generate ?g w
           = Inr ([Str ''del buf1'', Str ''kernel0.run(buf3)'', return_line ?g], w')"
      by (simp add: generate_def l trim_tail.simps)
    then obtain w' where gen: "generate ?g w
           = Inr ([Str ''del buf1'', Str ''kernel0.run(buf3)'', return_line ?g], w')"
      by blast
    note t = removed_buffer_erasure [OF gen, of ?rs]
    from t run have "\<forall>x \<in> set (lines w).
                    (\<exists>p. x = Plan p) \<or> (\<exists>nm t. x = DeferredLine nm t)
                    \<or> (\<exists>t. Text t \<in> set ?rs \<and> x = Str t)
                    \<or> (\<exists>b. Free b \<in> set ?rs \<and> x = Str (''del '' @ get_name b)
                          \<and> get_name b \<notin> removed_buffers ?g
                          \<and> (\<forall>n \<in> removed_buffers ?g.
                                n \<notin> set statement_words \<and> is_identifier (get_name b)
                                \<longrightarrow> \<not> mentions n (''del '' @ get_name b)))"
      by blast
    then have "(\<exists>t. Text t \<in> set ?rs \<and> Str ''del buf1'' = Str t)
                    \<or> (\<exists>b. Free b \<in> set ?rs \<and> Str ''del buf1'' = Str (''del '' @ get_name b)
                          \<and> get_name b \<notin> removed_buffers ?g
                          \<and> (\<forall>n \<in> removed_buffers ?g.
                                n \<notin> set statement_words \<and> is_identifier (get_name b)
                                \<longrightarrow> \<not> mentions n (''del '' @ get_name b)))"
      using l by auto
    then have "\<forall>n \<in> removed_buffers ?g.
                 n \<notin> set statement_words \<and> is_identifier ''buf1''
                 \<longrightarrow> \<not> mentions n (''del '' @ ''buf1'')"
      by (auto simp: v)
    moreover have "''d'' \<in> removed_buffers ?g \<and> ''d'' \<notin> set statement_words \<and> is_identifier ''buf1''"
      by (simp add: g statement_words_def is_identifier_def ident_char_def)
    ultimately have "\<not> mentions ''d'' (''del '' @ ''buf1'')" by blast
    then have "\<not> mentions ''d'' ''del buf1''" by simp
    with run l gen show ?thesis by blast
  qed
  from first second show ?thesis by blast
qed

subsection \<open>Allocation requests\<close>













subsection \<open>Graph inputs and constants\<close>











end
